theory Spec2Isabelle
  imports Complex_Main
begin

section \<open>JavaScript strings\<close>

text \<open>
  A JavaScript string is modelled as a \<open>string\<close> (a list of \<open>char\<close>): one \<open>char\<close> per code
  unit.  The case conversions \<open>toUpperCase\<close> and \<open>toLowerCase\<close> below are the host's on ASCII
  text: they change the letters a-z and A-Z only, one code unit for one.  On other text the
  host's conversions can change the length of a string (the lower case of U+0130 is two
  code units), so the scan of FindReplace.tsx, whose offsets are indices into the
  lower-cased line, takes the host's conversion as a parameter.
\<close>

text \<open>\<^verbatim>\<open>s.split('\n')\<close>: always at least one piece; the pieces hold no separator.\<close>

fun split_on :: "char \<Rightarrow> string \<Rightarrow> string list" where
  "split_on d [] = [[]]"
| "split_on d (c # cs) =
     (if c = d then [] # split_on d cs
      else (case split_on d cs of [] \<Rightarrow> [[c]] | l # ls \<Rightarrow> (c # l) # ls))"

definition split_nl :: "string \<Rightarrow> string list" where
  "split_nl s = split_on (CHR 0x0A) s"

text \<open>\<^verbatim>\<open>xs.join('\n')\<close>.\<close>

fun join_nl :: "string list \<Rightarrow> string" where
  "join_nl [] = []"
| "join_nl [x] = x"
| "join_nl (x # y # ys) = x @ CHR 0x0A # join_nl (y # ys)"

text \<open>\<^verbatim>\<open>s.slice(a, b)\<close> and \<^verbatim>\<open>s.substring(a, b)\<close> for non-negative integer arguments:
  both clamp to the length; \<open>slice\<close> is empty when \<open>b \<le> a\<close>, \<open>substring\<close> swaps.\<close>

definition js_slice :: "string \<Rightarrow> nat \<Rightarrow> nat \<Rightarrow> string" where
  "js_slice s a b = take (b - a) (drop a s)"

definition js_substring :: "string \<Rightarrow> nat \<Rightarrow> nat \<Rightarrow> string" where
  "js_substring s a b = (if a \<le> b then js_slice s a b else js_slice s b a)"

text \<open>\<^verbatim>\<open>s.substring(a)\<close> and \<^verbatim>\<open>s.slice(a)\<close> with one non-negative argument.\<close>

definition js_substringFrom :: "string \<Rightarrow> nat \<Rightarrow> string" where
  "js_substringFrom s a = drop a s"

definition lowerLetters :: string where
  "lowerLetters = ''abcdefghijklmnopqrstuvwxyz''"

definition upperLetters :: string where
  "upperLetters = ''ABCDEFGHIJKLMNOPQRSTUVWXYZ''"

definition decimalDigits :: string where
  "decimalDigits = ''0123456789''"

definition toUpperChar :: "char \<Rightarrow> char" where
  "toUpperChar c = (case map_of (zip lowerLetters upperLetters) c of Some u \<Rightarrow> u | None \<Rightarrow> c)"

definition toLowerChar :: "char \<Rightarrow> char" where
  "toLowerChar c = (case map_of (zip upperLetters lowerLetters) c of Some l \<Rightarrow> l | None \<Rightarrow> c)"

definition toUpperCase :: "string \<Rightarrow> string" where
  "toUpperCase s = map toUpperChar s"

definition toLowerCase :: "string \<Rightarrow> string" where
  "toLowerCase s = map toLowerChar s"

text \<open>\<^verbatim>\<open>s.trim()\<close>: tab, line feed, vertical tab, form feed, carriage return and space.\<close>

definition isWhiteSpace :: "char \<Rightarrow> bool" where
  "isWhiteSpace c \<longleftrightarrow> c \<in> set [CHR 0x09, CHR 0x0A, CHR 0x0B, CHR 0x0C, CHR 0x0D, CHR 0x20]"

definition trim :: "string \<Rightarrow> string" where
  "trim s = rev (dropWhile isWhiteSpace (rev (dropWhile isWhiteSpace s)))"

text \<open>\<^verbatim>\<open>s.indexOf(p, from)\<close> and \<^verbatim>\<open>s.lastIndexOf(p, from)\<close>; \<open>None\<close> is the result -1.\<close>

fun indexOfAux :: "string \<Rightarrow> string \<Rightarrow> nat \<Rightarrow> nat option" where
  "indexOfAux p [] k = (if p = [] then Some k else None)"
| "indexOfAux p (c # cs) k =
     (if take (length p) (c # cs) = p then Some k else indexOfAux p cs (Suc k))"

definition indexOf :: "string \<Rightarrow> string \<Rightarrow> nat \<Rightarrow> nat option" where
  "indexOf s p from = indexOfAux p (drop from s) (min from (length s))"

fun lastIndexDown :: "string \<Rightarrow> string \<Rightarrow> nat \<Rightarrow> nat option" where
  "lastIndexDown s p 0 = (if take (length p) s = p then Some 0 else None)"
| "lastIndexDown s p (Suc k) =
     (if take (length p) (drop (Suc k) s) = p then Some (Suc k) else lastIndexDown s p k)"

definition lastIndexOf :: "string \<Rightarrow> string \<Rightarrow> nat \<Rightarrow> nat option" where
  "lastIndexOf s p from =
     (if length s < length p then None else lastIndexDown s p (min from (length s - length p)))"

text \<open>\<^verbatim>\<open>s.split('->')\<close>.\<close>

fun split_arrow :: "string \<Rightarrow> string list" where
  "split_arrow [] = [[]]"
| "split_arrow [c] = [[c]]"
| "split_arrow (c # d # cs) =
     (if c = CHR ''-'' \<and> d = CHR ''>'' then [] # split_arrow cs
      else (case split_arrow (d # cs) of [] \<Rightarrow> [[c]] | l # ls \<Rightarrow> (c # l) # ls))"

text \<open>\<^verbatim>\<open>n.toString()\<close> for a non-negative integer.\<close>

fun showNat :: "nat \<Rightarrow> string" where
  "showNat n =
     (if n < 10 then [decimalDigits ! n]
      else showNat (n div 10) @ [decimalDigits ! (n mod 10)])"

declare showNat.simps [simp del]

text \<open>\<^verbatim>\<open>xs.slice(0, e)\<close> on an array: a negative \<open>e\<close> counts from the end.\<close>

definition array_slice0 :: "'a list \<Rightarrow> int \<Rightarrow> 'a list" where
  "array_slice0 xs e = (if e < 0 then take (nat (int (length xs) + e)) xs else take (nat e) xs)"

section \<open>The host's regular expressions\<close>

text \<open>
  The code compiles every pattern with \<^verbatim>\<open>new RegExp(source, flags)\<close> and runs it with
  \<^verbatim>\<open>exec\<close>, \<^verbatim>\<open>test\<close>, \<^verbatim>\<open>String.prototype.match\<close> and \<^verbatim>\<open>String.prototype.replace\<close>.
  A compiled pattern is a matcher: given the subject and a start index it fails or gives
  the end index of the match that starts there, with the captured groups.  The patterns
  the code builds itself, sequences of plain characters, escaped syntax characters and
  \<^verbatim>\<open>\b\<close>, are compiled here; every other source is left to the parameter \<open>host\<close>, which
  returns \<open>None\<close> for a syntax error.  A flag \<open>True\<close> is \<^verbatim>\<open>i\<close> (ignore case).
\<close>

type_synonym captures = "string option list"

type_synonym matcher = "string \<Rightarrow> nat \<Rightarrow> (nat \<times> captures) option"

type_synonym host = "string \<Rightarrow> bool \<Rightarrow> matcher option"

definition backslash :: char where
  "backslash = CHR 0x5C"

text \<open>The characters of the class \<^verbatim>\<open>[.*+?^${}()|[\]\\]\<close>, which are the syntax characters
  of a pattern.\<close>

definition syntaxCharacters :: string where
  "syntaxCharacters =
     [CHR ''.'', CHR ''*'', CHR ''+'', CHR ''?'', CHR ''^'', CHR ''$'', CHR ''{'', CHR ''}'',
      CHR ''('', CHR '')'', CHR ''|'', CHR ''['', CHR '']'', backslash]"

text \<open>\<^verbatim>\<open>s.replace(/[.*+?^${}()|[\]\\]/g, '\\$&')\<close>: a backslash before each of them.\<close>

definition escapeRegExp :: "string \<Rightarrow> string" where
  "escapeRegExp s =
     concat (map (\<lambda>c. if c \<in> set syntaxCharacters then [backslash, c] else [c]) s)"

datatype atom = Lit char | WordBoundary

fun parseAtoms :: "string \<Rightarrow> atom list option" where
  "parseAtoms [] = Some []"
| "parseAtoms [c] = (if c \<in> set syntaxCharacters then None else Some [Lit c])"
| "parseAtoms (c # d # cs) =
     (if c = backslash then
        (if d \<in> set syntaxCharacters then map_option ((#) (Lit d)) (parseAtoms cs)
         else if d = CHR ''b'' then map_option ((#) WordBoundary) (parseAtoms cs)
         else None)
      else if c \<in> set syntaxCharacters then None
      else map_option ((#) (Lit c)) (parseAtoms (d # cs)))"

definition isWordChar :: "char \<Rightarrow> bool" where
  "isWordChar c \<longleftrightarrow>
     c \<in> set lowerLetters \<or> c \<in> set upperLetters \<or> c \<in> set decimalDigits \<or> c = CHR ''_''"

definition canonicalize :: "bool \<Rightarrow> char \<Rightarrow> char" where
  "canonicalize ignoreCase c = (if ignoreCase then toUpperChar c else c)"

definition isWordBoundary :: "string \<Rightarrow> nat \<Rightarrow> bool" where
  "isWordBoundary s i \<longleftrightarrow>
     (0 < i \<and> i \<le> length s \<and> isWordChar (s ! (i - 1))) \<noteq> (i < length s \<and> isWordChar (s ! i))"

fun matchAtoms :: "bool \<Rightarrow> atom list \<Rightarrow> string \<Rightarrow> nat \<Rightarrow> nat option" where
  "matchAtoms ic [] s i = Some i"
| "matchAtoms ic (Lit c # as) s i =
     (if i < length s \<and> canonicalize ic (s ! i) = canonicalize ic c
      then matchAtoms ic as s (Suc i) else None)"
| "matchAtoms ic (WordBoundary # as) s i =
     (if isWordBoundary s i then matchAtoms ic as s i else None)"

definition atomsMatcher :: "bool \<Rightarrow> atom list \<Rightarrow> matcher" where
  "atomsMatcher ic as s i = map_option (\<lambda>e. (e, [])) (matchAtoms ic as s i)"

definition RegExp_new :: "host \<Rightarrow> string \<Rightarrow> bool \<Rightarrow> matcher option" where
  "RegExp_new h src ignoreCase =
     (case parseAtoms src of
        Some as \<Rightarrow> Some (atomsMatcher ignoreCase as)
      | None \<Rightarrow> h src ignoreCase)"

text \<open>One match attempt at an index.  A match of the engine ends at or after its start
  and inside the subject; an answer of the parameter that does not is read as a failure.\<close>

definition matchAt :: "matcher \<Rightarrow> string \<Rightarrow> nat \<Rightarrow> (nat \<times> captures) option" where
  "matchAt m s i =
     (case m s i of
        None \<Rightarrow> None
      | Some (e, caps) \<Rightarrow> if i \<le> e \<and> e \<le> length s then Some (e, caps) else None)"

text \<open>\<^verbatim>\<open>pattern.exec(s)\<close> at \<^verbatim>\<open>pattern.lastIndex\<close>: the first index from \<open>lastIndex\<close> on where
  an attempt succeeds, as (index, end, captures); \<open>None\<close> is \<^verbatim>\<open>null\<close>.  With the flag
  \<^verbatim>\<open>g\<close> the call leaves \<open>lastIndex\<close> at the end of the match; the callers below thread it.\<close>

function regExpExec :: "matcher \<Rightarrow> string \<Rightarrow> nat \<Rightarrow> (nat \<times> nat \<times> captures) option" where
  "regExpExec m s lastIndex =
     (if lastIndex > length s then None
      else (case matchAt m s lastIndex of
              Some (e, caps) \<Rightarrow> Some (lastIndex, e, caps)
            | None \<Rightarrow> regExpExec m s (Suc lastIndex)))"
  by pat_completeness auto
termination
  by (relation "measure (\<lambda>(m, s, i). Suc (length s) - i)") auto

declare regExpExec.simps [simp del]

text \<open>\<^verbatim>\<open>pattern.test(s)\<close> of a pattern without the flag \<^verbatim>\<open>g\<close>: the search starts at 0.\<close>

definition regExpTest :: "matcher \<Rightarrow> string \<Rightarrow> bool" where
  "regExpTest m s \<longleftrightarrow> regExpExec m s 0 \<noteq> None"

lemma regExpExec_bounds:
  "regExpExec m s lastIndex = Some (i, e, caps) \<Longrightarrow> lastIndex \<le> i \<and> i \<le> e \<and> e \<le> length s"
proof (induction m s lastIndex rule: regExpExec.induct)
  case (1 m s lastIndex)
  show ?case
  proof (cases "matchAt m s lastIndex")
    case None
    with "1.prems" have le: "\<not> length s < lastIndex" and "regExpExec m s (Suc lastIndex) = Some (i, e, caps)"
      by (auto simp: regExpExec.simps [of m s lastIndex] split: if_splits)
    with "1.IH" [OF le None] show ?thesis by simp
  next
    case (Some r)
    with "1.prems" show ?thesis
      by (auto simp: regExpExec.simps [of m s lastIndex] matchAt_def
               split: if_splits option.splits prod.splits)
  qed
qed

text \<open>The matches that \<^verbatim>\<open>s.match(pattern)\<close> and \<^verbatim>\<open>s.replace(pattern, r)\<close> collect for a
  pattern with the flag \<^verbatim>\<open>g\<close>: \<^verbatim>\<open>exec\<close> is repeated from \<open>lastIndex\<close>, which is advanced
  by one after an empty match.\<close>

function globalMatches :: "matcher \<Rightarrow> string \<Rightarrow> nat \<Rightarrow> (nat \<times> nat \<times> captures) list" where
  "globalMatches m s lastIndex =
     (case regExpExec m s lastIndex of
        None \<Rightarrow> []
      | Some (i, e, caps) \<Rightarrow> (i, e, caps) # globalMatches m s (if e = i then Suc e else e))"
  by pat_completeness auto
termination
proof (relation "measure (\<lambda>(m, s, i). Suc (length s) - i)")
  show "wf (measure (\<lambda>(m, s, i). Suc (length s) - i))" by simp
next
  fix m :: matcher and s :: string and lastIndex x2 i y e caps
  assume "regExpExec m s lastIndex = Some x2" and "(i, y) = x2" and "(e, caps) = y"
  then have "regExpExec m s lastIndex = Some (i, e, caps)" by simp
  from regExpExec_bounds [OF this]
  show "((m, s, if e = i then Suc e else e), m, s, lastIndex) \<in> measure (\<lambda>(m, s, i). Suc (length s) - i)"
    by auto
qed

declare globalMatches.simps [simp del]

text \<open>\<^verbatim>\<open>(s.match(pattern) || []).length\<close>.\<close>

definition matchCountOf :: "matcher \<Rightarrow> string \<Rightarrow> nat" where
  "matchCountOf m s = length (globalMatches m s 0)"

text \<open>The replacement text of one match for a string template (GetSubstitution):
  \<^verbatim>\<open>$$\<close>, \<^verbatim>\<open>$&\<close>, the text before and after the match, and numbered groups; named groups
  are not modelled.\<close>

definition digitValue :: "char \<Rightarrow> nat option" where
  "digitValue c = map_of (zip decimalDigits [0, 1, 2, 3, 4, 5, 6, 7, 8, 9]) c"

definition captureText :: "captures \<Rightarrow> nat \<Rightarrow> string" where
  "captureText caps n = (case caps ! (n - 1) of None \<Rightarrow> [] | Some t \<Rightarrow> t)"

fun getSubstitution :: "string \<Rightarrow> string \<Rightarrow> nat \<Rightarrow> captures \<Rightarrow> string \<Rightarrow> string" where
  "getSubstitution matched str position caps [] = []"
| "getSubstitution matched str position caps [c] = [c]"
| "getSubstitution matched str position caps (c # d # r) =
     (if c \<noteq> CHR ''$'' then c # getSubstitution matched str position caps (d # r)
      else if d = CHR ''$'' then CHR ''$'' # getSubstitution matched str position caps r
      else if d = CHR ''&'' then matched @ getSubstitution matched str position caps r
      else if d = CHR 0x60 then take position str @ getSubstitution matched str position caps r
      else if d = CHR 0x27 then
        drop (min (position + length matched) (length str)) str
          @ getSubstitution matched str position caps r
      else
        (case digitValue d of
           None \<Rightarrow> CHR ''$'' # getSubstitution matched str position caps (d # r)
         | Some n1 \<Rightarrow>
             (case (case r of [] \<Rightarrow> None | e # _ \<Rightarrow> map_option (\<lambda>n2. 10 * n1 + n2) (digitValue e)) of
                Some nn \<Rightarrow>
                  if nn \<le> length caps then
                    (if 1 \<le> nn then captureText caps nn
                     else CHR ''$'' # d # take 1 r)
                      @ getSubstitution matched str position caps (drop 1 r)
                  else if 1 \<le> n1 \<and> n1 \<le> length caps then
                    captureText caps n1 @ getSubstitution matched str position caps r
                  else CHR ''$'' # d # getSubstitution matched str position caps r
              | None \<Rightarrow>
                  if 1 \<le> n1 \<and> n1 \<le> length caps then
                    captureText caps n1 @ getSubstitution matched str position caps r
                  else CHR ''$'' # d # getSubstitution matched str position caps r)))"

fun replaceBuild :: "string \<Rightarrow> string \<Rightarrow> nat \<Rightarrow> (nat \<times> nat \<times> captures) list \<Rightarrow> string" where
  "replaceBuild s template nextPos [] = drop nextPos s"
| "replaceBuild s template nextPos ((i, e, caps) # rs) =
     (if nextPos \<le> i then
        js_slice s nextPos i @ getSubstitution (js_slice s i e) s i caps template
          @ replaceBuild s template e rs
      else replaceBuild s template nextPos rs)"

text \<open>\<^verbatim>\<open>s.replace(pattern, template)\<close> for a pattern with the flag \<^verbatim>\<open>g\<close>.\<close>

definition stringReplace :: "matcher \<Rightarrow> string \<Rightarrow> string \<Rightarrow> string" where
  "stringReplace m s template = replaceBuild s template 0 (globalMatches m s 0)"

section \<open>Column selection (App component and js/app.js)\<close>

record SelectionState =
  active :: bool
  startX :: nat
  startY :: nat
  endX :: nat
  endY :: nat
  justFinishedDragging :: bool

text \<open>The body of the \<^verbatim>\<open>for (let r = minRow; r <= maxRow; r++)\<close> loop of
  \<^verbatim>\<open>getSelectedText\<close>: the string pushed for row \<open>r\<close>.\<close>

definition selectedLine :: "string list \<Rightarrow> nat \<Rightarrow> nat \<Rightarrow> nat \<Rightarrow> string" where
  "selectedLine lines minCol maxCol r =
     (if r \<ge> length lines then []
      else
        let line = lines ! r;
            startCol = min minCol (length line);
            endCol = min (maxCol + 1) (length line)
        in if endCol > startCol then js_slice line startCol endCol else [])"

text \<open>\<^verbatim>\<open>getSelectedText\<close>, the same in the App component and in js/app.js (whose counter
  \<^verbatim>\<open>validSelections\<close> is never read).\<close>

definition getSelectedText :: "string \<Rightarrow> SelectionState \<Rightarrow> string" where
  "getSelectedText text sel =
     (let minRow = min (startY sel) (endY sel);
          maxRow = max (startY sel) (endY sel);
          minCol = min (startX sel) (endX sel);
          maxCol = max (startX sel) (endX sel);
          lines = split_nl text;
          selectedLines = map (selectedLine lines minCol maxCol) [minRow ..< Suc maxRow]
      in join_nl selectedLines)"

text \<open>The entry of row \<open>r\<close> in the words of the specification of the column extractor.\<close>

definition extract_row :: "string \<Rightarrow> nat \<Rightarrow> nat \<Rightarrow> nat \<Rightarrow> string" where
  "extract_row text minCol maxCol r =
     (let lines = split_nl text in
      if length lines \<le> r then []
      else if min (maxCol + 1) (length (lines ! r)) \<le> min minCol (length (lines ! r)) then []
      else js_slice (lines ! r) (min minCol (length (lines ! r)))
             (min (maxCol + 1) (length (lines ! r))))"

subsection \<open>JavaScript numbers\<close>

text \<open>
  A JavaScript number is an IEEE 754 double: a finite value, an infinity or NaN.  The
  result of \<^verbatim>\<open>+\<close>, \<^verbatim>\<open>-\<close>, \<^verbatim>\<open>*\<close> and \<^verbatim>\<open>/\<close> on finite operands is the exact result rounded
  to the nearest double, ties to the even significand: \<open>binary64\<close>, with 53 bits of
  significand and the least exponent -1022.  The coordinates and font metrics of a page are
  far from the largest double, so the overflow of a rounding to an infinity is left out.
\<close>

datatype number = Num real | PlusInfinity | MinusInfinity | NaN

definition roundHalfEven :: "real \<Rightarrow> int" where
  "roundHalfEven x =
     (let f = \<lfloor>x\<rfloor>; d = x - of_int f
      in if d < 1 / 2 then f else if 1 / 2 < d then f + 1 else if even f then f else f + 1)"

definition pow2 :: "int \<Rightarrow> real" where
  "pow2 e = (if 0 \<le> e then 2 ^ nat e else 1 / 2 ^ nat (- e))"

definition binary64 :: "real \<Rightarrow> real" where
  "binary64 x =
     (if x = 0 then 0
      else let e = max (- 1022) \<lfloor>log 2 \<bar>x\<bar>\<rfloor>; ulp = pow2 (e - 52)
           in of_int (roundHalfEven (x / ulp)) * ulp)"

text \<open>\<^verbatim>\<open>a / b\<close> on finite doubles, with the rounding \<open>fl\<close>: a zero divisor gives NaN or an
  infinity.  The divisors of the grid mapping are never the negative zero.\<close>

definition jsDivide :: "(real \<Rightarrow> real) \<Rightarrow> real \<Rightarrow> real \<Rightarrow> number" where
  "jsDivide fl a b =
     (if b = 0 then (if a = 0 then NaN else if 0 < a then PlusInfinity else MinusInfinity)
      else Num (fl (a / b)))"

fun mathFloor :: "number \<Rightarrow> number" where
  "mathFloor (Num r) = Num (of_int \<lfloor>r\<rfloor>)"
| "mathFloor v = v"

text \<open>\<^verbatim>\<open>Math.max(0, v)\<close>: NaN when \<open>v\<close> is NaN.\<close>

fun mathMax0 :: "number \<Rightarrow> number" where
  "mathMax0 (Num r) = Num (max 0 r)"
| "mathMax0 PlusInfinity = PlusInfinity"
| "mathMax0 MinusInfinity = Num 0"
| "mathMax0 NaN = NaN"

text \<open>\<^verbatim>\<open>v >= n\<close> for a length \<open>n\<close>: false when \<open>v\<close> is NaN.\<close>

fun atLeastLength :: "number \<Rightarrow> nat \<Rightarrow> bool" where
  "atLeastLength (Num r) n = (real n \<le> r)"
| "atLeastLength PlusInfinity n = True"
| "atLeastLength MinusInfinity n = False"
| "atLeastLength NaN n = False"

subsection \<open>Grid mapping\<close>

text \<open>
  What \<^verbatim>\<open>getPosition\<close> reads from the text area and its computed style, each a finite
  double.  \<open>styleLineHeight\<close> is \<^verbatim>\<open>parseFloat(style.lineHeight)\<close>, \<open>None\<close> when it is NaN (the
  keyword \<^verbatim>\<open>normal\<close>); \<open>glyphWidth\<close> is the measured width of the probe span of
  \<^verbatim>\<open>measureCharWidth\<close>.  Every function takes the rounding of the arithmetic, \<open>fl\<close>, as its
  first argument and applies it after each operation, in the order of the source;
  \<open>fl (6 / 10)\<close> is the literal \<^verbatim>\<open>0.6\<close>.
\<close>

record Position =
  row :: number
  col :: number

record TextArea =
  rectLeft :: real
  rectTop :: real
  paddingLeft :: real
  paddingTop :: real
  scrollLeft :: real
  scrollTop :: real
  styleLineHeight :: "real option"
  fontSize :: real
  glyphWidth :: real

record MouseEvent =
  clientX :: real
  clientY :: real

definition measureCharWidth :: "(real \<Rightarrow> real) \<Rightarrow> TextArea \<Rightarrow> real" where
  "measureCharWidth fl ta =
     (let width = glyphWidth ta in if width > 0 then width else fl (fontSize ta * fl (6 / 10)))"

text \<open>\<^verbatim>\<open>parseFloat(style.lineHeight) || parseFloat(style.fontSize) * 1.2\<close>: the left operand
  is falsy when it is NaN or 0.\<close>

definition lineHeightOf :: "(real \<Rightarrow> real) \<Rightarrow> TextArea \<Rightarrow> real" where
  "lineHeightOf fl ta =
     (case styleLineHeight ta of
        None \<Rightarrow> fl (fontSize ta * fl (12 / 10))
      | Some h \<Rightarrow> if h = 0 then fl (fontSize ta * fl (12 / 10)) else h)"

text \<open>\<^verbatim>\<open>event.clientX - rect.left - paddingLeft + textArea.scrollLeft\<close>, from left to
  right.\<close>

definition pointerX :: "(real \<Rightarrow> real) \<Rightarrow> TextArea \<Rightarrow> MouseEvent \<Rightarrow> real" where
  "pointerX fl ta ev = fl (fl (fl (clientX ev - rectLeft ta) - paddingLeft ta) + scrollLeft ta)"

definition pointerY :: "(real \<Rightarrow> real) \<Rightarrow> TextArea \<Rightarrow> MouseEvent \<Rightarrow> real" where
  "pointerY fl ta ev = fl (fl (fl (clientY ev - rectTop ta) - paddingTop ta) + scrollTop ta)"

text \<open>\<^verbatim>\<open>getPositionFromEvent\<close> of js/app.js; \<open>None\<close> is \<^verbatim>\<open>null\<close>.\<close>

definition getPositionFromEvent ::
  "(real \<Rightarrow> real) \<Rightarrow> TextArea \<Rightarrow> string \<Rightarrow> MouseEvent \<Rightarrow> Position option" where
  "getPositionFromEvent fl ta text ev =
     (let charWidth = measureCharWidth fl ta;
          lineHeight = lineHeightOf fl ta;
          x = pointerX fl ta ev;
          y = pointerY fl ta ev;
          c = mathMax0 (mathFloor (jsDivide fl x charWidth));
          r = mathMax0 (mathFloor (jsDivide fl y lineHeight));
          lines = split_nl text
      in if atLeastLength r (length lines) \<and> length lines > 0 then None
         else Some \<lparr>row = r, col = c\<rparr>)"

text \<open>\<^verbatim>\<open>getPosition\<close> of the App component: the same computation behind the guard
  \<^verbatim>\<open>if (!textAreaRef.current) return null\<close>; the second argument is \<open>None\<close> while the
  text area is not mounted.\<close>

definition getPosition ::
  "(real \<Rightarrow> real) \<Rightarrow> TextArea option \<Rightarrow> string \<Rightarrow> MouseEvent \<Rightarrow> Position option" where
  "getPosition fl ref text ev =
     (case ref of
        None \<Rightarrow> None
      | Some ta \<Rightarrow>
          let charWidth = measureCharWidth fl ta;
              lineHeight = lineHeightOf fl ta;
              x = pointerX fl ta ev;
              y = pointerY fl ta ev;
              c = mathMax0 (mathFloor (jsDivide fl x charWidth));
              r = mathMax0 (mathFloor (jsDivide fl y lineHeight));
              lines = split_nl text
          in if atLeastLength r (length lines) \<and> length lines > 0 then None
             else Some \<lparr>row = r, col = c\<rparr>)"

text \<open>The grid cell of the specification: column and row as floors of the quotients,
  clamped to be non-negative, where the offset of the pointer from the origin and the
  quotient are computed in doubles.\<close>

definition gridCol :: "(real \<Rightarrow> real) \<Rightarrow> TextArea \<Rightarrow> MouseEvent \<Rightarrow> int" where
  "gridCol fl ta ev = max 0 \<lfloor>fl (pointerX fl ta ev / measureCharWidth fl ta)\<rfloor>"

definition gridRow :: "(real \<Rightarrow> real) \<Rightarrow> TextArea \<Rightarrow> MouseEvent \<Rightarrow> int" where
  "gridRow fl ta ev = max 0 \<lfloor>fl (pointerY fl ta ev / lineHeightOf fl ta)\<rfloor>"

section \<open>Find and replace: the component of unnamed/part\_001\<close>

datatype error = SyntaxError | TypeError

record SearchOptions =
  caseSensitive :: bool
  wholeWord :: bool
  useRegex :: bool
  replaceFirst :: bool
  smartCase :: bool
  lineRange :: "(int \<times> int) option"
  contextFilter :: "string option"

record Match =
  m_index :: nat
  m_length :: nat
  m_text :: string
  m_lineNumber :: nat
  m_context :: string

record ReplaceOperation =
  op_id :: string
  op_find :: string
  op_replace :: string
  op_timestamp :: nat
  op_matchCount :: nat
  op_options :: SearchOptions

text \<open>The props and state of the component; \<open>fr_text\<close> is the prop \<^verbatim>\<open>text\<close>, which
  \<^verbatim>\<open>onTextChange\<close> replaces.\<close>

record FindReplace =
  fr_text :: string
  findText :: string
  replaceText :: string
  options :: SearchOptions
  matches :: "Match list"
  currentMatchIndex :: int
  isInteractiveMode :: bool
  selectedMatches :: "nat set"
  history :: "ReplaceOperation list"
  batchReplacements :: string

text \<open>\<^verbatim>\<open>searchText.substring(0, match.index).split('\n').length\<close>.\<close>

definition lineNumberOf :: "string \<Rightarrow> nat \<Rightarrow> nat" where
  "lineNumberOf searchText idx = length (split_nl (js_substring searchText 0 idx))"

text \<open>The context window of a match; \<^verbatim>\<open>Math.max(0, lineStart - 50)\<close> is the truncating
  subtraction of \<open>nat\<close>.\<close>

definition contextAround :: "string \<Rightarrow> nat \<Rightarrow> nat \<Rightarrow> string" where
  "contextAround searchText idx len =
     (let lineStart = (case lastIndexOf searchText [CHR 0x0A] idx of None \<Rightarrow> 0 | Some k \<Rightarrow> k + 1);
          lineEnd = indexOf searchText [CHR 0x0A] idx
      in js_substring searchText (lineStart - 50)
           (case lineEnd of
              None \<Rightarrow> min (length searchText) (idx + len + 50)
            | Some e \<Rightarrow> min (e + 50) (length searchText)))"

text \<open>The two filters of the scan loop, in their order: \<open>Skip\<close> is \<^verbatim>\<open>continue\<close>,
  \<open>Throw\<close> the syntax error of compiling the context filter.\<close>

datatype verdict = Keep | Skip | Throw

definition outsideLineRange :: "SearchOptions \<Rightarrow> nat \<Rightarrow> bool" where
  "outsideLineRange opts lineNumber =
     (case lineRange opts of
        None \<Rightarrow> False
      | Some (rangeStart, rangeEnd) \<Rightarrow> int lineNumber < rangeStart \<or> int lineNumber > rangeEnd)"

definition filterVerdict :: "host \<Rightarrow> SearchOptions \<Rightarrow> nat \<Rightarrow> string \<Rightarrow> verdict" where
  "filterVerdict h opts lineNumber context =
     (if outsideLineRange opts lineNumber then Skip
      else
        (case contextFilter opts of
           None \<Rightarrow> Keep
         | Some f \<Rightarrow>
             if f = [] then Keep
             else (case RegExp_new h f True of
                     None \<Rightarrow> Throw
                   | Some contextPattern \<Rightarrow>
                       if \<not> regExpTest contextPattern context then Skip else Keep)))"

text \<open>The loop \<^verbatim>\<open>while ((match = pattern.exec(searchText)) !== null)\<close> of \<^verbatim>\<open>findMatches\<close>,
  with \<^verbatim>\<open>pattern.lastIndex\<close> and \<^verbatim>\<open>foundMatches\<close> as arguments.  A \<^verbatim>\<open>continue\<close> goes back
  to \<^verbatim>\<open>exec\<close> with \<open>lastIndex\<close> at the end of the match; only a pushed match reaches
  the increment for an empty match.  \<open>None\<close> is a loop that never ends.\<close>

partial_function (option) scanLoop ::
  "host \<Rightarrow> SearchOptions \<Rightarrow> matcher \<Rightarrow> string \<Rightarrow> nat \<Rightarrow> Match list \<Rightarrow> (error + Match list) option"
where
  "scanLoop h opts pattern searchText lastIndex foundMatches =
     (case regExpExec pattern searchText lastIndex of
        None \<Rightarrow> Some (Inr foundMatches)
      | Some (idx, e, caps) \<Rightarrow>
          (case filterVerdict h opts (lineNumberOf searchText idx)
                  (contextAround searchText idx (e - idx)) of
             Throw \<Rightarrow> Some (Inl SyntaxError)
           | Skip \<Rightarrow> scanLoop h opts pattern searchText e foundMatches
           | Keep \<Rightarrow>
               scanLoop h opts pattern searchText (if e - idx = 0 then e + 1 else e)
                 (foundMatches @
                   [\<lparr>m_index = idx, m_length = e - idx, m_text = js_slice searchText idx e,
                     m_lineNumber = lineNumberOf searchText idx,
                     m_context = trim (contextAround searchText idx (e - idx))\<rparr>])))"

declare scanLoop.simps [code]

text \<open>The source of the pattern that \<^verbatim>\<open>findMatches\<close> compiles.\<close>

definition patternSource :: "SearchOptions \<Rightarrow> string \<Rightarrow> string" where
  "patternSource opts findStr =
     (if useRegex opts then findStr
      else
        let escapedFind = escapeRegExp findStr
        in if wholeWord opts then [backslash, CHR ''b''] @ escapedFind @ [backslash, CHR ''b'']
           else escapedFind)"

text \<open>\<^verbatim>\<open>findMatches\<close>: the new state, \<open>None\<close> when the scan never returns.  The
  \<^verbatim>\<open>catch\<close> block sets the matches to the empty list.\<close>

definition findMatches :: "host \<Rightarrow> FindReplace \<Rightarrow> FindReplace option" where
  "findMatches h st =
     (if findText st = [] then Some (st\<lparr>matches := []\<rparr>)
      else
        (case RegExp_new h (patternSource (options st) (findText st))
                (\<not> caseSensitive (options st)) of
           None \<Rightarrow> Some (st\<lparr>matches := []\<rparr>)
         | Some pattern \<Rightarrow>
             (case scanLoop h (options st) pattern (fr_text st) 0 [] of
                None \<Rightarrow> None
              | Some (Inl err) \<Rightarrow> Some (st\<lparr>matches := []\<rparr>)
              | Some (Inr foundMatches) \<Rightarrow>
                  Some (st\<lparr>matches := foundMatches,
                           currentMatchIndex := (if length foundMatches > 0 then 0 else -1)\<rparr>))))"

definition preserveCase :: "SearchOptions \<Rightarrow> string \<Rightarrow> string \<Rightarrow> string" where
  "preserveCase opts original replacement =
     (if \<not> smartCase opts then replacement
      else if original = toUpperCase original then toUpperCase replacement
      else if original = toLowerCase original then toLowerCase replacement
      else if take 1 original = toUpperCase (take 1 original) then
        toUpperCase (take 1 replacement) @ toLowerCase (drop 1 replacement)
      else replacement)"

text \<open>\<^verbatim>\<open>matches.filter((_, index) => selectedMatches.has(index))\<close> in interactive mode.\<close>

definition matchesToReplace :: "FindReplace \<Rightarrow> Match list" where
  "matchesToReplace st =
     (if isInteractiveMode st
      then map snd (filter (\<lambda>(i, m). i \<in> selectedMatches st) (enumerate 0 (matches st)))
      else matches st)"

definition replacementOf :: "SearchOptions \<Rightarrow> string \<Rightarrow> Match \<Rightarrow> string" where
  "replacementOf opts repl m =
     (if smartCase opts then preserveCase opts (m_text m) repl else repl)"

text \<open>One substitution:
  \<^verbatim>\<open>result.substring(0, match.index) + replacement + result.substring(match.index + match.length)\<close>.\<close>

definition substituteMatch :: "SearchOptions \<Rightarrow> string \<Rightarrow> string \<Rightarrow> Match \<Rightarrow> string" where
  "substituteMatch opts repl result m =
     js_substring result 0 (m_index m) @ replacementOf opts repl m
       @ js_substringFrom result (m_index m + m_length m)"

text \<open>\<^verbatim>\<open>[...matchesToReplace].sort((a, b) => b.index - a.index)\<close>: a stable sort into
  descending index.\<close>

definition sortedMatches :: "Match list \<Rightarrow> Match list" where
  "sortedMatches ms = sort_key (\<lambda>m. - int (m_index m)) ms"

definition replacedText :: "FindReplace \<Rightarrow> string" where
  "replacedText st =
     (let ms = matchesToReplace st in
      if replaceFirst (options st) \<and> length ms > 0
      then substituteMatch (options st) (replaceText st) (fr_text st) (hd ms)
      else foldl (substituteMatch (options st) (replaceText st)) (fr_text st) (sortedMatches ms))"

text \<open>\<^verbatim>\<open>performReplace\<close>; \<open>now\<close> is the reading of \<^verbatim>\<open>Date.now()\<close>.\<close>

definition performReplace :: "nat \<Rightarrow> FindReplace \<Rightarrow> FindReplace" where
  "performReplace now st =
     (if findText st = [] \<or> length (matches st) = 0 then st
      else if length (matchesToReplace st) = 0 then st
      else
        let result = replacedText st;
            operation = \<lparr>op_id = showNat now, op_find = findText st, op_replace = replaceText st,
                         op_timestamp = now, op_matchCount = length (matchesToReplace st),
                         op_options = options st\<rparr>
        in st\<lparr>history := operation # array_slice0 (history st) 19,
               fr_text := result,
               selectedMatches := {}\<rparr>)"

text \<open>One line of the batch text: the trimmed parts around \<^verbatim>\<open>->\<close>; \<open>None\<close> for a line
  that the loop skips.\<close>

definition parseBatchLine :: "string \<Rightarrow> (string \<times> string) option" where
  "parseBatchLine line =
     (let parts = map trim (split_arrow line) in
      if length parts \<noteq> 2 then None
      else if parts ! 0 = [] then None
      else Some (parts ! 0, parts ! 1))"

text \<open>The loop of \<^verbatim>\<open>performBatchReplace\<close> over the lines, with \<open>result\<close> and \<open>operations\<close>
  as arguments.  \<open>env k\<close> gives, for the operation pushed after \<open>k\<close> others, the reading of
  \<^verbatim>\<open>Date.now()\<close> and the digits of \<^verbatim>\<open>Math.random()\<close>.\<close>

fun batchLoop ::
  "host \<Rightarrow> (nat \<Rightarrow> nat \<times> string) \<Rightarrow> SearchOptions \<Rightarrow> string list \<Rightarrow> string
     \<Rightarrow> ReplaceOperation list \<Rightarrow> error + (string \<times> ReplaceOperation list)"
where
  "batchLoop h env opts [] result operations = Inr (result, operations)"
| "batchLoop h env opts (line # lines) result operations =
     (case parseBatchLine line of
        None \<Rightarrow> batchLoop h env opts lines result operations
      | Some (findStr, replaceStr) \<Rightarrow>
          (case RegExp_new h (escapeRegExp findStr) False of
             None \<Rightarrow> Inl SyntaxError
           | Some pattern \<Rightarrow>
               batchLoop h env opts lines (stringReplace pattern result replaceStr)
                 (operations @
                   [\<lparr>op_id = showNat (fst (env (length operations))) @ snd (env (length operations)),
                     op_find = findStr, op_replace = replaceStr,
                     op_timestamp = fst (env (length operations)),
                     op_matchCount = matchCountOf pattern result,
                     op_options = opts\<rparr>])))"

definition performBatchReplace ::
  "host \<Rightarrow> (nat \<Rightarrow> nat \<times> string) \<Rightarrow> FindReplace \<Rightarrow> error + FindReplace"
where
  "performBatchReplace h env st =
     (if trim (batchReplacements st) = [] then Inr st
      else
        (case batchLoop h env (options st)
                (filter (\<lambda>line. trim line \<noteq> []) (split_nl (batchReplacements st)))
                (fr_text st) [] of
           Inl err \<Rightarrow> Inl err
         | Inr (result, operations) \<Rightarrow>
             Inr (st\<lparr>history := operations @ array_slice0 (history st) (20 - int (length operations)),
                     fr_text := result,
                     batchReplacements := []\<rparr>)))"

section \<open>Find and replace: src/components/FindReplace.tsx\<close>

text \<open>The names of this component carry the prefix \<open>t_\<close> or the suffix \<open>T\<close> where they
  would clash with the other one.\<close>

record FindReplaceOptions =
  t_caseSensitive :: bool
  t_wholeWord :: bool
  t_useRegex :: bool
  t_replaceFirstOnly :: bool
  t_preserveCase :: bool
  t_lineRange :: "(int \<times> int) option"
  t_contextAware :: bool
  t_conditionalReplace :: bool

record MatchT =
  t_start :: nat
  t_end :: nat
  t_text :: string
  t_line :: nat
  t_context :: string

record BatchReplacement =
  b_find :: string
  b_replace :: string
  b_enabled :: bool

record ReplacementHistory =
  h_id :: string
  h_timestamp :: nat
  h_findText :: string
  h_replaceText :: string
  h_options :: FindReplaceOptions
  h_matchCount :: nat

record Statistics =
  totalReplacements :: nat
  totalMatches :: nat
  patternsUsed :: nat

record FindReplaceT =
  t_doc :: string
  t_findText :: string
  t_replaceText :: string
  t_options :: FindReplaceOptions
  t_matches :: "MatchT list"
  t_currentMatchIndex :: int
  t_history :: "ReplacementHistory list"
  t_batchReplacements :: "BatchReplacement list"
  t_statistics :: Statistics

text \<open>\<^verbatim>\<open>line[i] || ""\<close> and the test \<^verbatim>\<open>/[a-zA-Z0-9]/.test(..)\<close> on it; \<open>i\<close> is an integer,
  and an index outside the line gives the empty string.\<close>

definition charAtOrEmpty :: "string \<Rightarrow> int \<Rightarrow> string" where
  "charAtOrEmpty line i = (if 0 \<le> i \<and> i < int (length line) then [line ! nat i] else [])"

definition isAlnum :: "char \<Rightarrow> bool" where
  "isAlnum c \<longleftrightarrow> c \<in> set lowerLetters \<or> c \<in> set upperLetters \<or> c \<in> set decimalDigits"

definition hasAlnum :: "string \<Rightarrow> bool" where
  "hasAlnum s \<longleftrightarrow> (\<exists>c \<in> set s. isAlnum c)"

definition wordAdjacent :: "string \<Rightarrow> nat \<Rightarrow> nat \<Rightarrow> bool" where
  "wordAdjacent line idx len =
     (let before = charAtOrEmpty line (int idx - 1);
          after = charAtOrEmpty line (int (idx + len))
      in hasAlnum before \<or> hasAlnum after)"

text \<open>The context of a match in its line, with the ellipsis marks as the code places
  them; \<^verbatim>\<open>Math.max(0, index - 20)\<close> is the truncating subtraction.\<close>

definition contextT :: "string \<Rightarrow> nat \<Rightarrow> nat \<Rightarrow> string" where
  "contextT line idx len =
     (let contextStart = idx - 20;
          contextEnd = min (length line) (idx + len + 20);
          context = js_slice line contextStart contextEnd
      in if contextStart > 0 then ''...'' @ context
         else context @ (if contextEnd < length line then ''...'' else []))"

definition newMatchT :: "string \<Rightarrow> nat \<Rightarrow> nat \<Rightarrow> nat \<Rightarrow> nat \<Rightarrow> string \<Rightarrow> MatchT" where
  "newMatchT line lineIndex globalIndex idx len matched =
     \<lparr>t_start = globalIndex + idx, t_end = globalIndex + idx + len, t_text = matched,
      t_line = lineIndex + 1, t_context = contextT line idx len\<rparr>"

text \<open>The loop \<^verbatim>\<open>while ((match = regex.exec(line)) !== null)\<close> of the regex branch, with
  \<^verbatim>\<open>regex.lastIndex\<close> and \<^verbatim>\<open>newMatches\<close> as arguments.  Nothing in the body changes
  \<open>lastIndex\<close>, which \<^verbatim>\<open>exec\<close> leaves at the end of the match.  \<open>None\<close> is a loop that
  never ends.\<close>

partial_function (option) regexLoopT ::
  "FindReplaceOptions \<Rightarrow> matcher \<Rightarrow> string \<Rightarrow> nat \<Rightarrow> nat \<Rightarrow> nat \<Rightarrow> MatchT list \<Rightarrow> MatchT list option"
where
  "regexLoopT opts regex line lineIndex globalIndex lastIndex newMatches =
     (case regExpExec regex line lastIndex of
        None \<Rightarrow> Some newMatches
      | Some (idx, e, caps) \<Rightarrow>
          if t_wholeWord opts \<and> wordAdjacent line idx (e - idx)
          then regexLoopT opts regex line lineIndex globalIndex e newMatches
          else regexLoopT opts regex line lineIndex globalIndex e
                 (newMatches @ [newMatchT line lineIndex globalIndex idx (e - idx) (js_slice line idx e)]))"

declare regexLoopT.simps [code]

text \<open>The loop \<^verbatim>\<open>while ((index = searchText.indexOf(searchPattern, index)) !== -1)\<close> of the
  literal branch: \<open>index\<close> goes on one position after every occurrence.\<close>

partial_function (option) literalLoopT ::
  "FindReplaceOptions \<Rightarrow> string \<Rightarrow> string \<Rightarrow> string \<Rightarrow> nat \<Rightarrow> nat \<Rightarrow> nat \<Rightarrow> MatchT list \<Rightarrow> MatchT list option"
where
  "literalLoopT opts searchText searchPattern line lineIndex globalIndex idx newMatches =
     (case indexOf searchText searchPattern idx of
        None \<Rightarrow> Some newMatches
      | Some i \<Rightarrow>
          if t_wholeWord opts \<and> wordAdjacent line i (length searchPattern)
          then literalLoopT opts searchText searchPattern line lineIndex globalIndex (i + 1) newMatches
          else literalLoopT opts searchText searchPattern line lineIndex globalIndex (i + 1)
                 (newMatches @
                   [newMatchT line lineIndex globalIndex i (length searchPattern)
                      (js_slice line i (i + length searchPattern))]))"

declare literalLoopT.simps [code]

definition lineSkippedT :: "FindReplaceOptions \<Rightarrow> nat \<Rightarrow> bool" where
  "lineSkippedT opts lineIndex =
     (case t_lineRange opts of
        None \<Rightarrow> False
      | Some (rangeStart, rangeEnd) \<Rightarrow> int lineIndex < rangeStart \<or> int lineIndex > rangeEnd)"

text \<open>The body of \<^verbatim>\<open>lines.forEach((line, lineIndex) => ...)\<close> up to the update of
  \<^verbatim>\<open>globalIndex\<close>: the matches after the line.  A syntax error of the pattern is caught
  and leaves the matches as they are.  \<open>lc\<close> is the host's \<^verbatim>\<open>String.prototype.toLowerCase\<close>.\<close>

definition scanLineT ::
  "host \<Rightarrow> (string \<Rightarrow> string) \<Rightarrow> FindReplaceOptions \<Rightarrow> string \<Rightarrow> string \<Rightarrow> nat \<Rightarrow> nat
     \<Rightarrow> MatchT list \<Rightarrow> MatchT list option"
where
  "scanLineT h lc opts findStr line lineIndex globalIndex newMatches =
     (if lineSkippedT opts lineIndex then Some newMatches
      else
        let searchText = (if \<not> t_caseSensitive opts then lc line else line);
            searchPattern = (if \<not> t_caseSensitive opts then lc findStr else findStr)
        in if t_useRegex opts then
             (case RegExp_new h searchPattern (\<not> t_caseSensitive opts) of
                None \<Rightarrow> Some newMatches
              | Some regex \<Rightarrow> regexLoopT opts regex line lineIndex globalIndex 0 newMatches)
           else literalLoopT opts searchText searchPattern line lineIndex globalIndex 0 newMatches)"

fun linesLoopT ::
  "host \<Rightarrow> (string \<Rightarrow> string) \<Rightarrow> FindReplaceOptions \<Rightarrow> string \<Rightarrow> string list \<Rightarrow> nat \<Rightarrow> nat
     \<Rightarrow> MatchT list \<Rightarrow> MatchT list option"
where
  "linesLoopT h lc opts findStr [] lineIndex globalIndex newMatches = Some newMatches"
| "linesLoopT h lc opts findStr (line # lines) lineIndex globalIndex newMatches =
     (case scanLineT h lc opts findStr line lineIndex globalIndex newMatches of
        None \<Rightarrow> None
      | Some newMatches' \<Rightarrow>
          linesLoopT h lc opts findStr lines (lineIndex + 1) (globalIndex + (length line + 1)) newMatches')"

text \<open>\<^verbatim>\<open>findMatches\<close>: the new state, \<open>None\<close> when the scan never returns.\<close>

definition findMatchesT :: "host \<Rightarrow> (string \<Rightarrow> string) \<Rightarrow> FindReplaceT \<Rightarrow> FindReplaceT option" where
  "findMatchesT h lc st =
     (if t_findText st = [] then Some (st\<lparr>t_matches := []\<rparr>)
      else
        (case linesLoopT h lc (t_options st) (t_findText st) (split_nl (t_doc st)) 0 0 [] of
           None \<Rightarrow> None
         | Some newMatches \<Rightarrow>
             Some (st\<lparr>t_matches := newMatches,
                      t_currentMatchIndex := (if length newMatches > 0 then 0 else -1)\<rparr>)))"

definition replaceWithCasePreservation :: "FindReplaceOptions \<Rightarrow> string \<Rightarrow> string \<Rightarrow> string" where
  "replaceWithCasePreservation opts original replacement =
     (if \<not> t_preserveCase opts then replacement
      else if original = toUpperCase original then toUpperCase replacement
      else if original = toLowerCase original then toLowerCase replacement
      else if take 1 original = toUpperCase (take 1 original)
              \<and> drop 1 original = toLowerCase (drop 1 original) then
        toUpperCase (take 1 replacement) @ toLowerCase (drop 1 replacement)
      else replacement)"

text \<open>One step of \<^verbatim>\<open>sortedReplacements.forEach\<close>.\<close>

definition substituteMatchT :: "FindReplaceOptions \<Rightarrow> string \<Rightarrow> string \<Rightarrow> MatchT \<Rightarrow> string" where
  "substituteMatchT opts repl newText m =
     (let before = js_slice newText 0 (t_start m);
          after = js_substringFrom newText (t_end m);
          replacement = replaceWithCasePreservation opts (t_text m) repl
      in before @ replacement @ after)"

definition sortedReplacements :: "MatchT list \<Rightarrow> MatchT list" where
  "sortedReplacements ms = sort_key (\<lambda>m. - int (t_start m)) ms"

text \<open>\<^verbatim>\<open>replaceAll ? matches : [matches[currentMatchIndex]]\<close>; \<open>None\<close> when the index is
  outside the list, where the element is \<^verbatim>\<open>undefined\<close> and reading its fields throws.\<close>

definition replacementsToMake :: "bool \<Rightarrow> FindReplaceT \<Rightarrow> MatchT list option" where
  "replacementsToMake replaceAll st =
     (if replaceAll then Some (t_matches st)
      else if 0 \<le> t_currentMatchIndex st \<and> t_currentMatchIndex st < int (length (t_matches st))
      then Some [t_matches st ! nat (t_currentMatchIndex st)]
      else None)"

text \<open>\<^verbatim>\<open>performReplace(replaceAll)\<close>; \<open>now\<close> is the reading of \<^verbatim>\<open>Date.now()\<close>.\<close>

definition performReplaceT :: "nat \<Rightarrow> bool \<Rightarrow> FindReplaceT \<Rightarrow> error + FindReplaceT" where
  "performReplaceT now replaceAll st =
     (if length (t_matches st) = 0 then Inr st
      else
        (case replacementsToMake replaceAll st of
           None \<Rightarrow> Inl TypeError
         | Some toMake \<Rightarrow>
             let newText = foldl (substituteMatchT (t_options st) (t_replaceText st)) (t_doc st)
                             (sortedReplacements toMake);
                 replacements = length (sortedReplacements toMake);
                 historyEntry = \<lparr>h_id = showNat now, h_timestamp = now, h_findText = t_findText st,
                                  h_replaceText = t_replaceText st, h_options = t_options st,
                                  h_matchCount = length (t_matches st)\<rparr>
             in Inr (st\<lparr>t_statistics :=
                          (t_statistics st)\<lparr>totalReplacements :=
                               totalReplacements (t_statistics st) + replacements,
                             totalMatches := totalMatches (t_statistics st) + length (t_matches st)\<rparr>,
                        t_history := historyEntry # array_slice0 (t_history st) 9,
                        t_doc := newText,
                        t_matches := [],
                        t_currentMatchIndex := -1\<rparr>)))"

definition batchSourceT :: "FindReplaceOptions \<Rightarrow> BatchReplacement \<Rightarrow> string" where
  "batchSourceT opts item =
     (if t_wholeWord opts then [backslash, CHR ''b''] @ b_find item @ [backslash, CHR ''b'']
      else b_find item)"

text \<open>The body of \<^verbatim>\<open>.forEach(item => ...)\<close> of \<^verbatim>\<open>performBatchReplace\<close>, on the pair
  \<^verbatim>\<open>(newText, totalReplacements)\<close>; an invalid pattern throws.\<close>

definition batchStepT ::
  "host \<Rightarrow> FindReplaceOptions \<Rightarrow> string \<times> nat \<Rightarrow> BatchReplacement \<Rightarrow> error + (string \<times> nat)"
where
  "batchStepT h opts acc item =
     (case RegExp_new h (batchSourceT opts item) (\<not> t_caseSensitive opts) of
        None \<Rightarrow> Inl SyntaxError
      | Some regex \<Rightarrow>
          if matchCountOf regex (fst acc) \<noteq> 0
          then Inr (stringReplace regex (fst acc) (b_replace item),
                    snd acc + matchCountOf regex (fst acc))
          else Inr acc)"

fun forEachT ::
  "host \<Rightarrow> FindReplaceOptions \<Rightarrow> BatchReplacement list \<Rightarrow> string \<times> nat \<Rightarrow> error + (string \<times> nat)"
where
  "forEachT h opts [] acc = Inr acc"
| "forEachT h opts (item # items) acc =
     (case batchStepT h opts acc item of
        Inl err \<Rightarrow> Inl err
      | Inr acc' \<Rightarrow> forEachT h opts items acc')"

definition performBatchReplaceT :: "host \<Rightarrow> FindReplaceT \<Rightarrow> error + FindReplaceT" where
  "performBatchReplaceT h st =
     (case forEachT h (t_options st)
             (filter (\<lambda>item. b_enabled item \<and> b_find item \<noteq> []) (t_batchReplacements st))
             (t_doc st, 0) of
        Inl err \<Rightarrow> Inl err
      | Inr (newText, totalCount) \<Rightarrow>
          Inr (st\<lparr>t_statistics :=
                    (t_statistics st)\<lparr>totalReplacements := totalReplacements (t_statistics st) + totalCount,
                                      patternsUsed := patternsUsed (t_statistics st) + 1\<rparr>,
                  t_doc := newText\<rparr>))"

section \<open>The specification's operations\<close>

text \<open>Batch replacement as the specification describes it: the rules are taken in list
  order; a rule that is skipped has no pass; the pass of a rule runs on the text that the
  previous pass produced and reports its number of replacements; the first error ends the
  batch.\<close>

fun sequentialPasses ::
  "('r \<Rightarrow> (string \<Rightarrow> error + string \<times> nat) option) \<Rightarrow> 'r list \<Rightarrow> string \<Rightarrow> error + (string \<times> nat list)"
where
  "sequentialPasses pass [] current = Inr (current, [])"
| "sequentialPasses pass (rule # rules) current =
     (case pass rule of
        None \<Rightarrow> sequentialPasses pass rules current
      | Some run \<Rightarrow>
          (case run current of
             Inl err \<Rightarrow> Inl err
           | Inr (next, n) \<Rightarrow>
               (case sequentialPasses pass rules next of
                  Inl err \<Rightarrow> Inl err
                | Inr (final, counts) \<Rightarrow> Inr (final, n # counts))))"

text \<open>One pass: replace every match of the compiled pattern in the current text, and count
  the matches.\<close>

definition replaceAllPass :: "matcher option \<Rightarrow> string \<Rightarrow> string \<Rightarrow> error + string \<times> nat" where
  "replaceAllPass compiled replacement current =
     (case compiled of
        None \<Rightarrow> Inl SyntaxError
      | Some pattern \<Rightarrow> Inr (stringReplace pattern current replacement, matchCountOf pattern current))"

definition rulePassT ::
  "host \<Rightarrow> FindReplaceOptions \<Rightarrow> BatchReplacement \<Rightarrow> (string \<Rightarrow> error + string \<times> nat) option"
where
  "rulePassT h opts item =
     (if \<not> b_enabled item \<or> b_find item = [] then None
      else Some (replaceAllPass (RegExp_new h (batchSourceT opts item) (\<not> t_caseSensitive opts))
                   (b_replace item)))"

definition rulePass :: "host \<Rightarrow> string \<Rightarrow> (string \<Rightarrow> error + string \<times> nat) option" where
  "rulePass h line =
     (case parseBatchLine line of
        None \<Rightarrow> None
      | Some (findStr, replaceStr) \<Rightarrow>
          Some (replaceAllPass (RegExp_new h (escapeRegExp findStr) False) replaceStr))"

text \<open>Replacement as the specification describes it.  A span is a start offset, an end
  offset and the text that replaces the characters between them.  \<open>spliceFrom T pos spans\<close>
  is the text from \<open>pos\<close> on with every span replaced, for spans in ascending order: for
  one span it is \<^verbatim>\<open>T[0:start] + R + T[end:]\<close>.\<close>

type_synonym span = "nat \<times> nat \<times> string"

fun spliceFrom :: "string \<Rightarrow> nat \<Rightarrow> span list \<Rightarrow> string" where
  "spliceFrom T pos [] = drop pos T"
| "spliceFrom T pos ((s, e, r) # rest) = js_slice T pos s @ r @ spliceFrom T e rest"

text \<open>Spans in ascending order of start that do not overlap and lie inside a text of
  length \<open>n\<close>.\<close>

definition disjointAscending :: "span list \<Rightarrow> nat \<Rightarrow> bool" where
  "disjointAscending spans n \<longleftrightarrow>
     sorted_wrt (\<lambda>a b. fst a < fst b \<and> fst (snd a) \<le> fst b) spans
     \<and> list_all (\<lambda>sp. fst sp \<le> fst (snd sp) \<and> fst (snd sp) \<le> n) spans"

text \<open>The same for spans in any order: their starts differ, and of two spans the one
  that starts first ends at or before the start of the other.\<close>

definition disjointSpans :: "span list \<Rightarrow> nat \<Rightarrow> bool" where
  "disjointSpans spans n \<longleftrightarrow>
     list_all (\<lambda>sp. fst sp \<le> fst (snd sp) \<and> fst (snd sp) \<le> n) spans
     \<and> distinct (map fst spans)
     \<and> list_all (\<lambda>a. list_all (\<lambda>b. fst a < fst b \<longrightarrow> fst (snd a) \<le> fst b) spans) spans"

text \<open>The span of a match, with the replacement that the code computes for it.\<close>

definition spanOf :: "SearchOptions \<Rightarrow> string \<Rightarrow> Match \<Rightarrow> span" where
  "spanOf opts repl m = (m_index m, m_index m + m_length m, replacementOf opts repl m)"

definition spanOfT :: "FindReplaceOptions \<Rightarrow> string \<Rightarrow> MatchT \<Rightarrow> span" where
  "spanOfT opts repl m = (t_start m, t_end m, replaceWithCasePreservation opts (t_text m) repl)"

definition applySpan :: "string \<Rightarrow> span \<Rightarrow> string" where
  "applySpan X sp = take (fst sp) X @ snd (snd sp) @ drop (fst (snd sp)) X"

text \<open>The order and the bounds of the matches of a scan, on the ranges (start offset, end
  offset) of the matches.\<close>

definition rangeOf :: "Match \<Rightarrow> nat \<times> nat" where
  "rangeOf m = (m_index m, m_index m + m_length m)"

definition rangeOfT :: "MatchT \<Rightarrow> nat \<times> nat" where
  "rangeOfT m = (t_start m, t_end m)"

definition ascendingStarts :: "(nat \<times> nat) list \<Rightarrow> bool" where
  "ascendingStarts rs \<longleftrightarrow> sorted_wrt (\<lambda>a b. fst a < fst b) rs"

definition nonOverlapping :: "(nat \<times> nat) list \<Rightarrow> bool" where
  "nonOverlapping rs \<longleftrightarrow> sorted_wrt (\<lambda>a b. snd a \<le> fst b) rs"

definition withinText :: "nat \<Rightarrow> (nat \<times> nat) list \<Rightarrow> bool" where
  "withinText n rs \<longleftrightarrow> list_all (\<lambda>r. fst r \<le> snd r \<and> snd r \<le> n) rs"

definition nonEmptyRanges :: "(nat \<times> nat) list \<Rightarrow> bool" where
  "nonEmptyRanges rs \<longleftrightarrow> list_all (\<lambda>r. fst r < snd r) rs"

text \<open>The invariant of a scan in the words of the specification: strictly ascending
  starts, no overlap, and \<open>0 \<le> start < end \<le> length\<close> for every match.\<close>

definition scanInvariant :: "nat \<Rightarrow> (nat \<times> nat) list \<Rightarrow> bool" where
  "scanInvariant n rs \<longleftrightarrow>
     ascendingStarts rs \<and> nonOverlapping rs \<and> list_all (\<lambda>r. fst r < snd r \<and> snd r \<le> n) rs"

text \<open>The number of characters that an atom of a pattern consumes, and patterns that
  never match the empty string.\<close>

fun atomWidth :: "atom \<Rightarrow> nat" where
  "atomWidth (Lit c) = 1"
| "atomWidth WordBoundary = 0"

definition neverEmpty :: "matcher \<Rightarrow> bool" where
  "neverEmpty pattern \<longleftrightarrow> (\<forall>s i e caps. matchAt pattern s i = Some (e, caps) \<longrightarrow> i < e)"

text \<open>The loop invariant: the ranges found so far are in order, end at or before the
  cursor and start before it.\<close>

definition scanned :: "bool \<Rightarrow> nat \<Rightarrow> nat \<Rightarrow> (nat \<times> nat) list \<Rightarrow> bool" where
  "scanned ne n cursor rs \<longleftrightarrow>
     ascendingStarts rs \<and> nonOverlapping rs \<and> withinText n rs
     \<and> list_all (\<lambda>r. fst r < cursor \<and> snd r \<le> cursor) rs
     \<and> (ne \<longrightarrow> nonEmptyRanges rs)"

text \<open>The invariants of the scan of FindReplace.tsx: before the line that starts at offset
  \<open>g\<close>, and inside a line of length \<open>len\<close> with the cursor at \<open>cur\<close>.  The flag says whether
  the ranges are also known not to overlap.\<close>

definition before :: "bool \<Rightarrow> nat \<Rightarrow> (nat \<times> nat) list \<Rightarrow> bool" where
  "before no g rs \<longleftrightarrow>
     ascendingStarts rs \<and> (no \<longrightarrow> nonOverlapping rs)
     \<and> list_all (\<lambda>r. fst r < snd r \<and> snd r < g) rs"

definition inLine :: "bool \<Rightarrow> nat \<Rightarrow> nat \<Rightarrow> nat \<Rightarrow> (nat \<times> nat) list \<Rightarrow> bool" where
  "inLine no g len cur rs \<longleftrightarrow>
     ascendingStarts rs \<and> (no \<longrightarrow> nonOverlapping rs)
     \<and> list_all (\<lambda>r. fst r < snd r \<and> snd r \<le> g + len \<and> fst r < g + cur \<and> (no \<longrightarrow> snd r \<le> g + cur)) rs"





text \<open>The literal, case-insensitive scan of FindReplace.tsx searches the lower-cased line
  for the lower-cased find text and records the indices it finds as offsets of the line
  itself.  \<open>lowerCaseFits\<close> is what makes them so: the scan is not that one (\<open>useRegex\<close> or
  \<open>caseSensitive\<close> is on), or lower-casing does not empty the find text and changes the
  length of no line.\<close>

definition lowerCaseFits ::
  "(string \<Rightarrow> string) \<Rightarrow> FindReplaceOptions \<Rightarrow> string \<Rightarrow> string list \<Rightarrow> bool" where
  "lowerCaseFits lc opts findStr lines \<longleftrightarrow>
     t_useRegex opts \<or> t_caseSensitive opts
     \<or> (lc findStr \<noteq> [] \<and> list_all (\<lambda>line. length (lc line) = length line) lines)"

text \<open>The batch of part\_001 in the words of its claim: every rule replaces the
  occurrences of its find string, matched literally and case-sensitively.  An attempt of
  \<open>literalMatcher f\<close> at an index succeeds exactly when \<open>f\<close> stands there in the subject, and
  ends after it; \<open>literalBatch\<close> applies the rules in order.  Neither reads an option or
  compiles a pattern.\<close>

definition literalMatcher :: "string \<Rightarrow> matcher" where
  "literalMatcher f s i =
     (if i + length f \<le> length s \<and> js_slice s i (i + length f) = f
      then Some (i + length f, []) else None)"

fun literalBatch :: "string list \<Rightarrow> string \<Rightarrow> string" where
  "literalBatch [] current = current"
| "literalBatch (line # lines) current =
     (case parseBatchLine line of
        None \<Rightarrow> literalBatch lines current
      | Some (findStr, replaceStr) \<Rightarrow>
          literalBatch lines (stringReplace (literalMatcher findStr) current replaceStr))"

section \<open>Inputs of the examples\<close>

definition demoArea :: TextArea where
  "demoArea = \<lparr>rectLeft = 10, rectTop = 30, paddingLeft = 4, paddingTop = 6,
     scrollLeft = 0, scrollTop = 0, styleLineHeight = Some 20, fontSize = 14, glyphWidth = 8\<rparr>"

text \<open>A text area at a fractional offset: its edges are at the double nearest to 15.2, its
  glyphs are as wide as the double nearest to 8.4 and its lines as high as the double
  nearest to 16.8.\<close>

definition subpixelArea :: TextArea where
  "subpixelArea = \<lparr>rectLeft = 4278419646001971 / 281474976710656,
     rectTop = 4278419646001971 / 281474976710656, paddingLeft = 16, paddingTop = 16,
     scrollLeft = 0, scrollTop = 0, styleLineHeight = Some (4728779608739021 / 281474976710656),
     fontSize = 14, glyphWidth = 4728779608739021 / 562949953421312\<rparr>"

definition plainOptions :: SearchOptions where
  "plainOptions = \<lparr>caseSensitive = False, wholeWord = False, useRegex = False, replaceFirst = False,
     smartCase = True, lineRange = None, contextFilter = None\<rparr>"

definition plainOptionsT :: FindReplaceOptions where
  "plainOptionsT = \<lparr>t_caseSensitive = False, t_wholeWord = False, t_useRegex = False,
     t_replaceFirstOnly = False, t_preserveCase = False, t_lineRange = None,
     t_contextAware = False, t_conditionalReplace = False\<rparr>"

text \<open>A host that compiles nothing: every pattern of the examples is one that the model
  compiles itself.\<close>

definition noHost :: host where
  "noHost = (\<lambda>src ignoreCase. None)"

definition emptyState :: FindReplace where
  "emptyState = \<lparr>fr_text = [], findText = [], replaceText = [], options = plainOptions,
     matches = [], currentMatchIndex = -1, isInteractiveMode = False, selectedMatches = {},
     history = [], batchReplacements = []\<rparr>"

definition emptyStateT :: FindReplaceT where
  "emptyStateT = \<lparr>t_doc = [], t_findText = [], t_replaceText = [], t_options = plainOptionsT,
     t_matches = [], t_currentMatchIndex = 0, t_history = [], t_batchReplacements = [],
     t_statistics = \<lparr>totalReplacements = 0, totalMatches = 0, patternsUsed = 0\<rparr>\<rparr>"

text \<open>Options with every flag set, and a batch of one rule whose find string holds a
  dot.\<close>

definition regexOptions :: SearchOptions where
  "regexOptions = \<lparr>caseSensitive = False, wholeWord = True, useRegex = True, replaceFirst = True,
     smartCase = True, lineRange = Some (5, 6), contextFilter = Some ''(''\<rparr>"

definition dotBatch :: FindReplace where
  "dotBatch = emptyState\<lparr>fr_text := ''A.ab a.'', batchReplacements := ''a. -> x'', options := regexOptions\<rparr>"

text \<open>A lower-casing that turns one code unit into two, as the host's does for U+0130
  (whose lower case is i followed by U+0307): here the code unit 0xDD becomes i followed by
  0xCC.\<close>

definition lengtheningLowerCase :: "string \<Rightarrow> string" where
  "lengtheningLowerCase s =
     concat (map (\<lambda>c. if c = CHR 0xDD then [CHR ''i'', CHR 0xCC] else [toLowerChar c]) s)"

definition twoLines :: string where
  "twoLines = ''x'' @ [CHR 0x0A] @ ''x''"


text \<open>A batch text of 21 rules.\<close>

definition manyRules :: string where
  "manyRules = concat (replicate 21 (''a->b'' @ [CHR 0x0A]))"

definition demoRules :: "BatchReplacement list" where
  "demoRules = [\<lparr>b_find = ''a'', b_replace = ''b'', b_enabled = True\<rparr>,
                \<lparr>b_find = ''b'', b_replace = ''x'', b_enabled = False\<rparr>,
                \<lparr>b_find = [], b_replace = ''z'', b_enabled = True\<rparr>,
                \<lparr>b_find = ''b'', b_replace = ''c'', b_enabled = True\<rparr>]"

definition demoBatch :: string where
  "demoBatch = ''a->b'' @ [CHR 0x0A] @ ''->z'' @ [CHR 0x0A] @ ''b -> c''"

definition demoMatches :: "Match list" where
  "demoMatches =
     [\<lparr>m_index = 1, m_length = 1, m_text = ''X'', m_lineNumber = 1, m_context = ''aXaXa''\<rparr>,
      \<lparr>m_index = 3, m_length = 1, m_text = ''X'', m_lineNumber = 1, m_context = ''aXaXa''\<rparr>]"

definition demoMatchesT :: "MatchT list" where
  "demoMatchesT =
     [\<lparr>t_start = 1, t_end = 2, t_text = ''X'', t_line = 1, t_context = ''aXaXa''\<rparr>,
      \<lparr>t_start = 3, t_end = 4, t_text = ''X'', t_line = 1, t_context = ''aXaXa''\<rparr>]"

definition scanState :: FindReplace where
  "scanState = emptyState\<lparr>fr_text := ''aXaXa'', findText := ''x''\<rparr>"

definition scanStateT :: FindReplaceT where
  "scanStateT = emptyStateT\<lparr>t_doc := ''aXaXa'', t_findText := ''x''\<rparr>"

section \<open>Properties of the column selection\<close>

lemma split_on_not_Nil: "split_on d s \<noteq> []"
  by (induction s) (auto split: list.splits)

lemma split_on_no_sep: "l \<in> set (split_on d s) \<Longrightarrow> d \<notin> set l"
proof (induction s arbitrary: l)
  case Nil
  then show ?case by simp
next
  case (Cons c cs)
  show ?case
  proof (cases "c = d")
    case True
    with Cons show ?thesis by auto
  next
    case False
    obtain h t where ht: "split_on d cs = h # t"
      using split_on_not_Nil [of d cs] by (cases "split_on d cs") auto
    from Cons.prems False ht have "l = c # h \<or> l \<in> set t" by simp
    then show ?thesis
    proof
      assume "l = c # h"
      moreover have "d \<notin> set h" using Cons.IH [of h] ht by simp
      ultimately show ?thesis using False by auto
    next
      assume "l \<in> set t"
      then show ?thesis using Cons.IH [of l] ht by simp
    qed
  qed
qed

lemma split_on_append_sep:
  "d \<notin> set x \<Longrightarrow> split_on d (x @ d # rest) = x # split_on d rest"
  by (induction x) auto

lemma split_on_single: "d \<notin> set x \<Longrightarrow> split_on d x = [x]"
  by (induction x) auto

lemma split_join_nl:
  "xs \<noteq> [] \<Longrightarrow> (\<And>x. x \<in> set xs \<Longrightarrow> CHR 0x0A \<notin> set x) \<Longrightarrow> split_nl (join_nl xs) = xs"
proof (induction xs rule: join_nl.induct)
  case 1
  then show ?case by simp
next
  case (2 x)
  then show ?case by (simp add: split_nl_def split_on_single)
next
  case (3 x y ys)
  have "split_nl (join_nl (y # ys)) = y # ys"
    using 3 by simp
  moreover have "CHR 0x0A \<notin> set x" using 3(3) by simp
  ultimately show ?case
    by (simp add: split_nl_def split_on_append_sep)
qed

lemma selectedLine_no_nl: "CHR 0x0A \<notin> set (selectedLine (split_nl text) a b r)"
proof (cases "r < length (split_nl text)")
  case True
  then have "split_nl text ! r \<in> set (split_nl text)" by simp
  then have "CHR 0x0A \<notin> set (split_nl text ! r)"
    unfolding split_nl_def by (rule split_on_no_sep)
  then show ?thesis
    by (auto simp: selectedLine_def js_slice_def Let_def dest: in_set_takeD in_set_dropD)
next
  case False
  then show ?thesis by (simp add: selectedLine_def)
qed

lemma selectedLine_extract_row:
  "selectedLine (split_nl text) a b r = extract_row text a b r"
  by (auto simp: selectedLine_def extract_row_def Let_def js_slice_def min_def)

text \<open>
  C4.  For every text and every selection, the string returned by \<open>getSelectedText\<close>, split
  on newline, has exactly maxRow - minRow + 1 entries, one for each row from minRow to
  maxRow in order: the empty string when the row is at or past the number of lines of the
  text or when the clipped column range is empty, and otherwise the line sliced from
  min(minCol, line length) to min(maxCol + 1, line length).  The bounds are the minima and
  maxima of the selection's corners, so minRow \<le> maxRow and minCol \<le> maxCol always hold.
\<close>

theorem getSelectedText_rows:
  "split_nl (getSelectedText text sel) =
     map (extract_row text (min (startX sel) (endX sel)) (max (startX sel) (endX sel)))
       [min (startY sel) (endY sel) ..< Suc (max (startY sel) (endY sel))]
   \<and> length (split_nl (getSelectedText text sel)) =
       max (startY sel) (endY sel) - min (startY sel) (endY sel) + 1"
proof -
  let ?rows = "[min (startY sel) (endY sel) ..< Suc (max (startY sel) (endY sel))]"
  let ?f = "selectedLine (split_nl text) (min (startX sel) (endX sel)) (max (startX sel) (endX sel))"
  have ne: "map ?f ?rows \<noteq> []" by simp
  have nl: "\<And>x. x \<in> set (map ?f ?rows) \<Longrightarrow> CHR 0x0A \<notin> set x"
    using selectedLine_no_nl by auto
  have "split_nl (join_nl (map ?f ?rows)) = map ?f ?rows"
    using ne nl by (rule split_join_nl)
  then have eq: "split_nl (getSelectedText text sel) = map ?f ?rows"
    by (simp add: getSelectedText_def Let_def)
  have "map ?f ?rows = map (extract_row text (min (startX sel) (endX sel)) (max (startX sel) (endX sel))) ?rows"
    by (simp add: selectedLine_extract_row)
  with eq show ?thesis by simp
qed

lemma length_split_nl_pos: "0 < length (split_nl text)"
  by (simp add: split_nl_def split_on_not_Nil)

subsection \<open>Rounding to doubles\<close>

lemma roundHalfEven_int: "roundHalfEven (of_int k) = k"
  by (simp add: roundHalfEven_def)

lemma pow2_powr: "pow2 e = 2 powr of_int e"
proof (cases "0 \<le> e")
  case True
  then have "(2::real) powr of_int e = 2 powr real (nat e)" by simp
  also have "\<dots> = 2 ^ nat e" by (rule powr_realpow) simp
  finally show ?thesis using True by (simp add: pow2_def)
next
  case False
  then have "(2::real) powr of_int e = 2 powr (- real (nat (- e)))" by simp
  also have "\<dots> = 1 / 2 powr real (nat (- e))" by (simp add: powr_minus_divide)
  also have "2 powr real (nat (- e)) = (2::real) ^ nat (- e)" by (rule powr_realpow) simp
  finally show ?thesis using False by (simp add: pow2_def)
qed

lemma binary64_at:
  assumes "pow2 e \<le> \<bar>x\<bar>" and "\<bar>x\<bar> < pow2 (e + 1)" and "- 1022 \<le> e"
  shows "binary64 x = of_int (roundHalfEven (x / pow2 (e - 52))) * pow2 (e - 52)"
proof -
  have p: "0 < \<bar>x\<bar>" using assms(1) unfolding pow2_powr by (smt (verit) powr_gt_zero)
  have "\<lfloor>log 2 \<bar>x\<bar>\<rfloor> = e"
    using assms p unfolding pow2_powr by (simp add: floor_log_eq_powr_iff)
  with p assms(3) show ?thesis by (simp add: binary64_def Let_def)
qed

lemma binary64_int:
  assumes "\<bar>k\<bar> < 2 ^ 53"
  shows "binary64 (of_int k) = of_int k"
proof (cases "k = 0")
  case True
  then show ?thesis by (simp add: binary64_def)
next
  case False
  define e where "e = \<lfloor>log 2 \<bar>real_of_int k\<bar>\<rfloor>"
  have "1 \<le> \<bar>k\<bar>" using False by simp
  then have "real_of_int 1 \<le> real_of_int \<bar>k\<bar>" by (simp only: of_int_le_iff)
  then have k1: "1 \<le> \<bar>real_of_int k\<bar>" by simp
  have "0 \<le> log 2 \<bar>real_of_int k\<bar>" using k1 by simp
  then have e0: "0 \<le> e" by (simp add: e_def)
  have "\<bar>real_of_int k\<bar> < 2 ^ 53"
    using assms by (metis of_int_abs of_int_less_numeral_power_cancel_iff)
  then have "log 2 \<bar>real_of_int k\<bar> < 53"
    using k1 by (subst log_less_iff) (simp_all add: powr_numeral)
  then have e52: "e \<le> 52" unfolding e_def by linarith
  define n where "n = nat (52 - e)"
  have u: "pow2 (e - 52) = 1 / 2 ^ n"
    using e52 by (cases "e = 52") (simp_all add: pow2_def n_def)
  have "real_of_int k / (1 / 2 ^ n) = of_int (k * 2 ^ n)" by simp
  then have r: "roundHalfEven (real_of_int k / (1 / 2 ^ n)) = k * 2 ^ n"
    using roundHalfEven_int [of "k * 2 ^ n"] by simp
  have "binary64 (of_int k) = of_int (roundHalfEven (of_int k / pow2 (e - 52))) * pow2 (e - 52)"
  proof -
    have "max (- 1022) \<lfloor>log 2 \<bar>real_of_int k\<bar>\<rfloor> = e" using e0 by (simp add: e_def)
    then show ?thesis using False by (simp add: binary64_def Let_def)
  qed
  also have "\<dots> = of_int k" unfolding u r by simp
  finally show ?thesis .
qed

lemma binary64_numeral:
  "(numeral n :: int) < 2 ^ 53 \<Longrightarrow> binary64 (numeral n) = numeral n"
  using binary64_int [of "numeral n"] by simp

lemma binary64_0: "binary64 0 = 0"
  by (simp add: binary64_def)

lemma binary64_1: "binary64 1 = 1"
  using binary64_int [of 1] by simp

text \<open>The rounding is visible in the grid.  The pointer at (48, 48) over \<open>subpixelArea\<close> is,
  in exact arithmetic, two glyphs to the right of and one line below the origin; in doubles
  the offset is 16.799999999999997 and the cell is row 0, column 1.\<close>

lemma subpixel_step1:
  "binary64 (48 - 4278419646001971 / 281474976710656) = 2308094809027379 / 70368744177664"
  by (subst binary64_at [where e = 5]) (simp_all add: pow2_def roundHalfEven_def)

lemma subpixel_step2:
  "binary64 (2308094809027379 / 70368744177664 - 16) = 1182194902184755 / 70368744177664"
  by (subst binary64_at [where e = 4]) (simp_all add: pow2_def roundHalfEven_def)

lemma subpixel_step3:
  "binary64 (1182194902184755 / 70368744177664 + 0) = 1182194902184755 / 70368744177664"
  by (subst binary64_at [where e = 4]) (simp_all add: pow2_def roundHalfEven_def)

lemma subpixel_step4:
  "binary64 (1182194902184755 / 70368744177664 / (4728779608739021 / 562949953421312))
     = 4503599627370495 / 2251799813685248"
  by (subst binary64_at [where e = 0]) (simp_all add: pow2_def roundHalfEven_def)

lemma subpixel_step5:
  "binary64 (1182194902184755 / 70368744177664 / (4728779608739021 / 281474976710656))
     = 4503599627370495 / 4503599627370496"
  by (subst binary64_at [where e = "- 1"]) (simp_all add: pow2_def roundHalfEven_def)

lemma subpixel_position:
  "getPositionFromEvent binary64 subpixelArea text \<lparr>clientX = 48, clientY = 48\<rparr>
     = Some \<lparr>row = Num 0, col = Num 1\<rparr>"
proof -
  let ?ev = "\<lparr>clientX = 48, clientY = 48\<rparr>"
  have w: "measureCharWidth binary64 subpixelArea = 4728779608739021 / 562949953421312"
    by (simp add: measureCharWidth_def subpixelArea_def)
  have h: "lineHeightOf binary64 subpixelArea = 4728779608739021 / 281474976710656"
    by (simp add: lineHeightOf_def subpixelArea_def)
  have "pointerX binary64 subpixelArea ?ev
      = binary64 (binary64 (binary64 (48 - 4278419646001971 / 281474976710656) - 16) + 0)"
    unfolding pointerX_def subpixelArea_def by simp
  then have x: "pointerX binary64 subpixelArea ?ev = 1182194902184755 / 70368744177664"
    by (simp only: subpixel_step1 subpixel_step2 subpixel_step3)
  have "pointerY binary64 subpixelArea ?ev
      = binary64 (binary64 (binary64 (48 - 4278419646001971 / 281474976710656) - 16) + 0)"
    unfolding pointerY_def subpixelArea_def by simp
  then have y: "pointerY binary64 subpixelArea ?ev = 1182194902184755 / 70368744177664"
    by (simp only: subpixel_step1 subpixel_step2 subpixel_step3)
  have c: "jsDivide binary64 (pointerX binary64 subpixelArea ?ev) (measureCharWidth binary64 subpixelArea)
      = Num (4503599627370495 / 2251799813685248)"
    unfolding x w jsDivide_def by (simp only: subpixel_step4) simp
  have r: "jsDivide binary64 (pointerY binary64 subpixelArea ?ev) (lineHeightOf binary64 subpixelArea)
      = Num (4503599627370495 / 4503599627370496)"
    unfolding y h jsDivide_def by (simp only: subpixel_step5) simp
  show ?thesis
    using length_split_nl_pos [of "text"]
    unfolding getPositionFromEvent_def Let_def c r by simp
qed

subsection \<open>The grid cell\<close>

lemma clamped_floor:
  assumes "b \<noteq> 0"
  shows "mathMax0 (mathFloor (jsDivide fl a b)) = Num (of_int (max 0 \<lfloor>fl (a / b)\<rfloor>))"
  using assms by (simp add: jsDivide_def max_def)

lemma atLeastLength_Num: "atLeastLength (Num (of_int k)) n \<longleftrightarrow> int n \<le> k"
proof -
  have "real n \<le> real_of_int k \<longleftrightarrow> real_of_int (int n) \<le> real_of_int k" by simp
  also have "\<dots> \<longleftrightarrow> int n \<le> k" by (rule of_int_le_iff)
  finally show ?thesis by simp
qed

text \<open>Without positive metrics the position can hold NaN: a line height of 0 under a
  pointer at the origin.\<close>

lemma positive_metrics_needed:
  assumes "lineHeightOf fl ta = 0" and "pointerY fl ta ev = 0"
  shows "\<exists>p. getPositionFromEvent fl ta text ev = Some p \<and> row p = NaN"
  using assms by (simp add: getPositionFromEvent_def Let_def jsDivide_def)

text \<open>The empty buffer has one line, the empty one: a pointer one line height below the
  origin is on row 1 and gets null, in \<open>getPositionFromEvent\<close> and in \<open>getPosition\<close>.\<close>

theorem getPosition_empty_buffer:
  "getPositionFromEvent binary64 demoArea [] \<lparr>clientX = 14, clientY = 56\<rparr> = None
   \<and> getPosition binary64 (Some demoArea) [] \<lparr>clientX = 14, clientY = 56\<rparr> = None"
  by (simp add: getPositionFromEvent_def getPosition_def Let_def measureCharWidth_def
        lineHeightOf_def pointerX_def pointerY_def demoArea_def jsDivide_def split_nl_def
        binary64_numeral binary64_0 binary64_1)

text \<open>
  C9.  For every rounding of the arithmetic and positive font metrics, the grid mapping
  computes the column as the floor of (pointerX - originX + scrollX) / charWidth and the
  row as the floor of (pointerY - originY + scrollY) / lineHeight, each clamped to be at
  least 0, where the subtractions, the addition and the division are those of doubles, in
  the order of the source, and the origin is the corner of the text area's box plus its
  padding.  It returns null exactly when that row is at or beyond the number of lines of
  the text buffer, empty or not: the buffer always has at least one line.  A returned
  position has that row and column, both non-negative, with the row below the number of
  lines.  \<open>getPosition\<close> of the App component on a mounted text area and
  \<open>getPositionFromEvent\<close> of js/app.js agree.
\<close>

theorem getPosition_grid:
  assumes "0 < measureCharWidth fl ta" and "0 < lineHeightOf fl ta"
  shows "(getPositionFromEvent fl ta text ev = None
            \<longleftrightarrow> int (length (split_nl text)) \<le> gridRow fl ta ev)
       \<and> (\<forall>p. getPositionFromEvent fl ta text ev = Some p \<longrightarrow>
              row p = Num (of_int (gridRow fl ta ev)) \<and> col p = Num (of_int (gridCol fl ta ev))
              \<and> 0 \<le> gridRow fl ta ev \<and> 0 \<le> gridCol fl ta ev
              \<and> gridRow fl ta ev < int (length (split_nl text)))
       \<and> 0 < length (split_nl text)
       \<and> getPosition fl (Some ta) text ev = getPositionFromEvent fl ta text ev"
proof -
  from assms have nz: "measureCharWidth fl ta \<noteq> 0" "lineHeightOf fl ta \<noteq> 0" by simp_all
  have r: "0 \<le> gridRow fl ta ev" and c: "0 \<le> gridCol fl ta ev"
    by (simp_all add: gridRow_def gridCol_def)
  have g: "getPositionFromEvent fl ta text ev =
      (if int (length (split_nl text)) \<le> gridRow fl ta ev then None
       else Some \<lparr>row = Num (of_int (gridRow fl ta ev)), col = Num (of_int (gridCol fl ta ev))\<rparr>)"
    using length_split_nl_pos [of "text"]
    by (simp add: getPositionFromEvent_def Let_def clamped_floor [OF nz(1)] clamped_floor [OF nz(2)]
          atLeastLength_Num gridRow_def gridCol_def)
  have e: "getPosition fl (Some ta) text ev = getPositionFromEvent fl ta text ev"
    by (simp add: getPosition_def getPositionFromEvent_def)
  show ?thesis
    using r c length_split_nl_pos [of "text"] unfolding g e by auto
qed

theorem getPosition_grid_witness:
  "0 < measureCharWidth binary64 demoArea \<and> 0 < lineHeightOf binary64 demoArea
   \<and> getPositionFromEvent binary64 demoArea ''ab'' \<lparr>clientX = 14, clientY = 56\<rparr> = None
   \<and> getPosition binary64 (Some demoArea) (''ab'' @ [CHR 0x0A] @ ''cd'') \<lparr>clientX = 14, clientY = 56\<rparr>
       = Some \<lparr>row = Num 1, col = Num 0\<rparr>
   \<and> getPositionFromEvent binary64 demoArea ''ab'' \<lparr>clientX = 14, clientY = 36\<rparr>
       = Some \<lparr>row = Num 0, col = Num 0\<rparr>"
proof -
  note bs = binary64_numeral binary64_0 binary64_1
  have m: "0 < measureCharWidth binary64 demoArea" "0 < lineHeightOf binary64 demoArea"
    by (simp_all add: measureCharWidth_def lineHeightOf_def demoArea_def)
  have s1: "split_nl ''ab'' = [''ab'']" by (simp add: split_nl_def)
  have s2: "split_nl (''ab'' @ [CHR 0x0A] @ ''cd'') = [''ab'', ''cd'']" by (simp add: split_nl_def)
  have g1: "gridRow binary64 demoArea \<lparr>clientX = 14, clientY = 56\<rparr> = 1"
    by (simp add: gridRow_def pointerY_def lineHeightOf_def demoArea_def bs)
  have g2: "gridCol binary64 demoArea \<lparr>clientX = 14, clientY = 56\<rparr> = 0"
    by (simp add: gridCol_def pointerX_def measureCharWidth_def demoArea_def bs)
  have g3: "gridRow binary64 demoArea \<lparr>clientX = 14, clientY = 36\<rparr> = 0"
    by (simp add: gridRow_def pointerY_def lineHeightOf_def demoArea_def bs)
  have g4: "gridCol binary64 demoArea \<lparr>clientX = 14, clientY = 36\<rparr> = 0"
    by (simp add: gridCol_def pointerX_def measureCharWidth_def demoArea_def bs)
  note t1 = getPosition_grid [OF m, of "''ab''" "\<lparr>clientX = 14, clientY = 56\<rparr>"]
  note t2 = getPosition_grid [OF m, of "''ab'' @ [CHR 0x0A] @ ''cd''" "\<lparr>clientX = 14, clientY = 56\<rparr>"]
  note t3 = getPosition_grid [OF m, of "''ab''" "\<lparr>clientX = 14, clientY = 36\<rparr>"]
  have a: "getPositionFromEvent binary64 demoArea ''ab'' \<lparr>clientX = 14, clientY = 56\<rparr> = None"
    using t1 unfolding s1 g1 by simp
  have b: "getPosition binary64 (Some demoArea) (''ab'' @ [CHR 0x0A] @ ''cd'') \<lparr>clientX = 14, clientY = 56\<rparr>
       = Some \<lparr>row = Num 1, col = Num 0\<rparr>"
  proof (cases "getPositionFromEvent binary64 demoArea (''ab'' @ [CHR 0x0A] @ ''cd'') \<lparr>clientX = 14, clientY = 56\<rparr>")
    case None
    with t2 show ?thesis unfolding s2 g1 by simp
  next
    case (Some p)
    with t2 have "row p = Num 1 \<and> col p = Num 0" unfolding g1 g2 by simp
    then have "p = \<lparr>row = Num 1, col = Num 0\<rparr>" by (cases p) simp
    with Some t2 show ?thesis by simp
  qed
  have c: "getPositionFromEvent binary64 demoArea ''ab'' \<lparr>clientX = 14, clientY = 36\<rparr>
       = Some \<lparr>row = Num 0, col = Num 0\<rparr>"
  proof (cases "getPositionFromEvent binary64 demoArea ''ab'' \<lparr>clientX = 14, clientY = 36\<rparr>")
    case None
    with t3 show ?thesis unfolding s1 g3 by simp
  next
    case (Some p)
    with t3 have "row p = Num 0 \<and> col p = Num 0" unfolding g3 g4 by simp
    then have "p = \<lparr>row = Num 0, col = Num 0\<rparr>" by (cases p) simp
    with Some show ?thesis by simp
  qed
  from m a b c show ?thesis by simp
qed

section \<open>Case preservation\<close>

lemmas case_simps = toUpperCase_def toLowerCase_def toUpperChar_def toLowerChar_def
  lowerLetters_def upperLetters_def

text \<open>The two implementations differ only on an original that is neither all upper case
  nor all lower case, begins with a character that upper-casing leaves unchanged, and does
  not continue in lower case.\<close>

lemma preserveCase_agrees:
  assumes "smartCase opts = t_preserveCase optsT"
    and "take 1 original = toUpperCase (take 1 original) \<longrightarrow> original \<noteq> toUpperCase original
           \<longrightarrow> original \<noteq> toLowerCase original \<longrightarrow> drop 1 original = toLowerCase (drop 1 original)"
  shows "preserveCase opts original replacement = replaceWithCasePreservation optsT original replacement"
  using assms by (auto simp: preserveCase_def replaceWithCasePreservation_def)

text \<open>
  C5.  With smart case set, \<open>preserveCase\<close> of part\_001 on the mixed-case original HeLLo
  (first character upper case, the rest not lower case) and the replacement world gives
  World, not the replacement unchanged; \<open>replaceWithCasePreservation\<close> of FindReplace.tsx
  gives world.
\<close>

theorem preserveCase_mixed_original:
  "preserveCase plainOptions ''HeLLo'' ''world'' = ''World''
   \<and> replaceWithCasePreservation (plainOptionsT\<lparr>t_preserveCase := True\<rparr>) ''HeLLo'' ''world'' = ''world''"
  by (simp add: preserveCase_def replaceWithCasePreservation_def plainOptions_def plainOptionsT_def case_simps)

section \<open>Termination of the scan\<close>

lemma scanLoop_skip_empty_match:
  assumes ex: "regExpExec pattern s li = Some (li, li, caps)"
    and skip: "filterVerdict h opts (lineNumberOf s li) (contextAround s li 0) = Skip"
  shows "scanLoop h opts pattern s li found = None"
proof (rule ccontr)
  assume "scanLoop h opts pattern s li found \<noteq> None"
  then obtain y where y: "scanLoop h opts pattern s li found = Some y" by auto
  have "\<not> (h = h \<and> opts = opts \<and> pattern = pattern \<and> s = s \<and> li = li)"
  proof (rule scanLoop.raw_induct [where P = "\<lambda>h' opts' pattern' s' li' found' y'.
           \<not> (h' = h \<and> opts' = opts \<and> pattern' = pattern \<and> s' = s \<and> li' = li)", OF _ y])
    fix f h' opts' pattern' s' li' found' y'
    assume IH: "\<And>h' opts' pattern' s' li' found' y'. f h' opts' pattern' s' li' found' = Some y' \<Longrightarrow>
           \<not> (h' = h \<and> opts' = opts \<and> pattern' = pattern \<and> s' = s \<and> li' = li)"
      and body: "(case regExpExec pattern' s' li' of
        None \<Rightarrow> Some (Inr found')
      | Some (idx, e, caps) \<Rightarrow>
          (case filterVerdict h' opts' (lineNumberOf s' idx) (contextAround s' idx (e - idx)) of
             Throw \<Rightarrow> Some (Inl SyntaxError)
           | Skip \<Rightarrow> f h' opts' pattern' s' e found'
           | Keep \<Rightarrow>
               f h' opts' pattern' s' (if e - idx = 0 then e + 1 else e)
                 (found' @
                   [\<lparr>m_index = idx, m_length = e - idx, m_text = js_slice s' idx e,
                     m_lineNumber = lineNumberOf s' idx,
                     m_context = trim (contextAround s' idx (e - idx))\<rparr>]))) = Some y'"
    show "\<not> (h' = h \<and> opts' = opts \<and> pattern' = pattern \<and> s' = s \<and> li' = li)"
    proof
      assume eq: "h' = h \<and> opts' = opts \<and> pattern' = pattern \<and> s' = s \<and> li' = li"
      with body ex skip have "f h opts pattern s li found' = Some y'" by simp
      from IH [OF this] show False by simp
    qed
  qed
  then show False by simp
qed

lemma regexLoopT_empty_match:
  assumes ex: "regExpExec regex line li = Some (li, li, caps)"
  shows "regexLoopT opts regex line lineIndex globalIndex li newMatches = None"
proof (rule ccontr)
  assume "regexLoopT opts regex line lineIndex globalIndex li newMatches \<noteq> None"
  then obtain y where y: "regexLoopT opts regex line lineIndex globalIndex li newMatches = Some y" by auto
  have "\<not> (regex = regex \<and> line = line \<and> li = li)"
  proof (rule regexLoopT.raw_induct [where P = "\<lambda>opts' regex' line' lineIndex' globalIndex' li' new' y'.
           \<not> (regex' = regex \<and> line' = line \<and> li' = li)", OF _ y])
    fix f opts' regex' line' lineIndex' globalIndex' li' new' y'
    assume IH: "\<And>opts' regex' line' lineIndex' globalIndex' li' new' y'.
           f opts' regex' line' lineIndex' globalIndex' li' new' = Some y' \<Longrightarrow>
           \<not> (regex' = regex \<and> line' = line \<and> li' = li)"
      and body: "(case regExpExec regex' line' li' of
        None \<Rightarrow> Some new'
      | Some (idx, e, caps) \<Rightarrow>
          if t_wholeWord opts' \<and> wordAdjacent line' idx (e - idx)
          then f opts' regex' line' lineIndex' globalIndex' e new'
          else f opts' regex' line' lineIndex' globalIndex' e
                 (new' @ [newMatchT line' lineIndex' globalIndex' idx (e - idx) (js_slice line' idx e)])) = Some y'"
    show "\<not> (regex' = regex \<and> line' = line \<and> li' = li)"
    proof
      assume eq: "regex' = regex \<and> line' = line \<and> li' = li"
      with body ex obtain new'' where "f opts' regex line lineIndex' globalIndex' li new'' = Some y'"
        by (auto split: if_splits)
      from IH [OF this] show False by simp
    qed
  qed
  then show False by simp
qed

lemma wb_exec: "regExpExec (atomsMatcher ic [WordBoundary]) ''abc'' 0 = Some (0, 0, [])"
  by (simp add: regExpExec.simps [of _ _ 0] matchAt_def atomsMatcher_def isWordBoundary_def isWordChar_def lowerLetters_def)

lemma wb_parse: "parseAtoms [backslash, CHR ''b''] = Some [WordBoundary]"
  by (simp add: syntaxCharacters_def backslash_def)

text \<open>Without a line range and a context filter every match is pushed, the increment
  after an empty match is reached, and the scan of part\_001 returns for every pattern.\<close>

lemma filterVerdict_unfiltered:
  assumes "lineRange opts = None" and "contextFilter opts = None \<or> contextFilter opts = Some []"
  shows "filterVerdict h opts n c = Keep"
  using assms by (auto simp: filterVerdict_def outsideLineRange_def)

lemma scanLoop_returns_unfiltered:
  assumes "lineRange opts = None" and "contextFilter opts = None \<or> contextFilter opts = Some []"
  shows "\<exists>ms. scanLoop h opts pattern s li found = Some (Inr ms)"
proof (induction "Suc (length s) - li" arbitrary: li found rule: less_induct)
  case less
  show ?case
  proof (cases "regExpExec pattern s li")
    case None
    then show ?thesis by (subst scanLoop.simps) simp
  next
    case (Some r)
    obtain idx e caps where r: "r = (idx, e, caps)" by (cases r)
    from regExpExec_bounds [OF Some [unfolded r]]
    have b: "li \<le> idx" "idx \<le> e" "e \<le> length s" by simp_all
    let ?c = "if e - idx = 0 then e + 1 else e"
    have "Suc (length s) - ?c < Suc (length s) - li"
      using b by auto
    from less.hyps [OF this] Some r filterVerdict_unfiltered [OF assms]
    show ?thesis
      by (subst scanLoop.simps) simp
  qed
qed

text \<open>
  C3.  The scan of \<open>findMatches\<close> does not always return.  In FindReplace.tsx the regex
  branch has no step past an empty match: with the text abc and the pattern \<^verbatim>\<open>\b\<close> in
  regex mode the scan never returns.  In the component of part\_001 the increment after an
  empty match is not reached when the match is filtered out: with the same text and pattern
  and the line range 2 to 3 the scan never returns.
\<close>

theorem findMatches_never_returns:
  "findMatchesT noHost toLowerCase
     (emptyStateT\<lparr>t_doc := ''abc'', t_findText := [backslash, CHR ''b''],
        t_options := plainOptionsT\<lparr>t_useRegex := True\<rparr>\<rparr>) = None
   \<and> findMatches noHost
     (emptyState\<lparr>fr_text := ''abc'', findText := [backslash, CHR ''b''],
        options := plainOptions\<lparr>useRegex := True, lineRange := Some (2, 3)\<rparr>\<rparr>) = None"
proof -
  have a: "regexLoopT (plainOptionsT\<lparr>t_useRegex := True\<rparr>) (atomsMatcher True [WordBoundary]) ''abc'' 0 0 0 [] = None"
    using wb_exec by (rule regexLoopT_empty_match)
  have lineNo: "lineNumberOf ''abc'' 0 = 1"
    by (simp add: lineNumberOf_def js_substring_def js_slice_def split_nl_def)
  have "filterVerdict noHost (plainOptions\<lparr>useRegex := True, lineRange := Some (2, 3)\<rparr>)
          (lineNumberOf ''abc'' 0) (contextAround ''abc'' 0 0) = Skip"
    by (simp add: filterVerdict_def outsideLineRange_def lineNo plainOptions_def)
  with wb_exec have b: "scanLoop noHost (plainOptions\<lparr>useRegex := True, lineRange := Some (2, 3)\<rparr>)
      (atomsMatcher True [WordBoundary]) ''abc'' 0 [] = None"
    by (rule scanLoop_skip_empty_match)
  have s: "split_nl ''abc'' = [''abc'']" by (simp add: split_nl_def)
  have low: "toLowerCase [backslash, CHR ''b''] = [backslash, CHR ''b'']"
    by (simp add: toLowerCase_def toLowerChar_def backslash_def upperLetters_def lowerLetters_def)
  have "findMatchesT noHost toLowerCase
     (emptyStateT\<lparr>t_doc := ''abc'', t_findText := [backslash, CHR ''b''],
        t_options := plainOptionsT\<lparr>t_useRegex := True\<rparr>\<rparr>) = None"
    by (simp add: findMatchesT_def emptyStateT_def s scanLineT_def lineSkippedT_def low [unfolded backslash_def] RegExp_new_def
          parseAtoms.simps syntaxCharacters_def backslash_def
          a [unfolded plainOptionsT_def backslash_def, simplified] plainOptionsT_def)
  moreover have "findMatches noHost
     (emptyState\<lparr>fr_text := ''abc'', findText := [backslash, CHR ''b''],
        options := plainOptions\<lparr>useRegex := True, lineRange := Some (2, 3)\<rparr>\<rparr>) = None"
    by (simp add: findMatches_def emptyState_def patternSource_def RegExp_new_def
          parseAtoms.simps syntaxCharacters_def backslash_def
          b [unfolded plainOptions_def backslash_def, simplified] plainOptions_def)
  ultimately show ?thesis by simp
qed

section \<open>Batch replacement in part\_001\<close>

lemma backslash_syntax: "backslash \<in> set syntaxCharacters"
  by (simp add: syntaxCharacters_def)

lemma parseAtoms_plain:
  "c \<notin> set syntaxCharacters \<Longrightarrow> parseAtoms (c # rest) = map_option ((#) (Lit c)) (parseAtoms rest)"
  using backslash_syntax by (cases rest) auto

lemma parseAtoms_escaped:
  "c \<in> set syntaxCharacters \<Longrightarrow>
     parseAtoms (backslash # c # rest) = map_option ((#) (Lit c)) (parseAtoms rest)"
  by simp

lemma parseAtoms_escapeRegExp: "parseAtoms (escapeRegExp f) = Some (map Lit f)"
proof (induction f)
  case Nil
  then show ?case by (simp add: escapeRegExp_def)
next
  case (Cons c f)
  have unfold: "escapeRegExp (c # f) =
      (if c \<in> set syntaxCharacters then backslash # c # escapeRegExp f else c # escapeRegExp f)"
    by (simp add: escapeRegExp_def)
  show ?case
  proof (cases "c \<in> set syntaxCharacters")
    case True
    then show ?thesis
      unfolding unfold by (simp add: parseAtoms_escaped [OF True] Cons.IH del: parseAtoms.simps)
  next
    case False
    then show ?thesis
      unfolding unfold by (simp add: parseAtoms_plain [OF False] Cons.IH del: parseAtoms.simps)
  qed
qed

lemma RegExp_new_escaped:
  "RegExp_new h (escapeRegExp f) ic = Some (atomsMatcher ic (map Lit f))"
  by (simp add: RegExp_new_def parseAtoms_escapeRegExp)

lemma matchAtoms_literal:
  "i \<le> length s \<Longrightarrow> matchAtoms ic (map Lit f) s i =
     (if i + length f \<le> length s
         \<and> map (canonicalize ic) (take (length f) (drop i s)) = map (canonicalize ic) f
      then Some (i + length f) else None)"
proof (induction f arbitrary: i)
  case Nil
  then show ?case by simp
next
  case (Cons c f)
  show ?case
  proof (cases "i < length s")
    case True
    then have d: "drop i s = s ! i # drop (Suc i) s"
      by (simp add: Cons_nth_drop_Suc)
    show ?thesis
      using True by (auto simp: Cons.IH d)
  next
    case False
    then show ?thesis by simp
  qed
qed

lemma canonicalize_False: "map (canonicalize False) xs = xs"
  by (induction xs) (simp_all add: canonicalize_def)

lemma matchAt_literal:
  "matchAt (atomsMatcher False (map Lit f)) s i =
     (if i + length f \<le> length s \<and> js_slice s i (i + length f) = f
      then Some (i + length f, []) else None)"
proof (cases "i \<le> length s")
  case True
  then show ?thesis
    by (simp add: matchAt_def atomsMatcher_def matchAtoms_literal canonicalize_False js_slice_def)
next
  case False
  then have "matchAt (atomsMatcher False (map Lit f)) s i = None"
    by (auto simp: matchAt_def split: option.splits)
  with False show ?thesis by simp
qed

lemma batchLoop_text_independent:
  "map_sum id fst (batchLoop h env opts lines result ops)
     = map_sum id fst (batchLoop h' env' opts' lines result ops')"
proof (induction lines arbitrary: result ops ops')
  case Nil
  then show ?case by simp
next
  case (Cons line lines)
  show ?case
  proof (cases "parseBatchLine line")
    case None
    then show ?thesis using Cons.IH by simp
  next
    case (Some fr)
    obtain f r where fr: "fr = (f, r)" by (cases fr)
    show ?thesis
      using Some fr Cons.IH by (simp add: RegExp_new_escaped)
  qed
qed

lemma batchLoop_returns:
  "\<exists>r ops'. batchLoop h env opts lines result ops = Inr (r, ops')
      \<and> length ops' = length ops + length (filter (\<lambda>l. parseBatchLine l \<noteq> None) lines)"
proof (induction lines arbitrary: result ops)
  case Nil
  then show ?case by simp
next
  case (Cons line lines)
  show ?case
  proof (cases "parseBatchLine line")
    case None
    then show ?thesis using Cons.IH [of result ops] by simp
  next
    case (Some fr)
    obtain f r where fr: "fr = (f, r)" by (cases fr)
    let ?p = "atomsMatcher False (map Lit f)"
    let ?ops = "ops @ [\<lparr>op_id = showNat (fst (env (length ops))) @ snd (env (length ops)),
                     op_find = f, op_replace = r,
                     op_timestamp = fst (env (length ops)),
                     op_matchCount = matchCountOf ?p result,
                     op_options = opts\<rparr>]"
    from Cons.IH [of "stringReplace ?p result r" ?ops]
    show ?thesis
      using Some fr by (auto simp: RegExp_new_escaped)
  qed
qed

lemma regExpExec_matchAt_cong:
  assumes "\<And>i. matchAt m s i = matchAt m' s i"
  shows "regExpExec m s lastIndex = regExpExec m' s lastIndex"
proof (induction "Suc (length s) - lastIndex" arbitrary: lastIndex rule: less_induct)
  case less
  show ?case
  proof (cases "lastIndex > length s")
    case True
    then show ?thesis by (simp add: regExpExec.simps [of _ s lastIndex])
  next
    case False
    then have "regExpExec m s (Suc lastIndex) = regExpExec m' s (Suc lastIndex)"
      by (intro less) simp
    then show ?thesis
      using False assms [of lastIndex]
      by (simp add: regExpExec.simps [of _ s lastIndex] split: option.splits)
  qed
qed

lemma globalMatches_matchAt_cong:
  assumes "\<And>i. matchAt m s i = matchAt m' s i"
  shows "globalMatches m s lastIndex = globalMatches m' s lastIndex"
proof (induction "Suc (length s) - lastIndex" arbitrary: lastIndex rule: less_induct)
  case less
  have x: "regExpExec m s lastIndex = regExpExec m' s lastIndex"
    using assms by (rule regExpExec_matchAt_cong)
  show ?case
  proof (cases "regExpExec m' s lastIndex")
    case None
    with x show ?thesis by (simp add: globalMatches.simps [of _ s lastIndex])
  next
    case (Some r)
    obtain i e caps where r: "r = (i, e, caps)" by (cases r)
    from regExpExec_bounds [of m' s lastIndex i e caps] Some r
    have b: "lastIndex \<le> i" "i \<le> e" "e \<le> length s" by simp_all
    have "globalMatches m s (if e = i then Suc e else e) = globalMatches m' s (if e = i then Suc e else e)"
      by (intro less) (use b in auto)
    with x Some r show ?thesis by (simp add: globalMatches.simps [of _ s lastIndex])
  qed
qed

lemma matchAt_literalMatcher:
  "matchAt (atomsMatcher False (map Lit f)) s i = matchAt (literalMatcher f) s i"
  by (simp add: matchAt_literal) (simp add: matchAt_def literalMatcher_def)

lemma stringReplace_literal:
  "stringReplace (atomsMatcher False (map Lit f)) s r = stringReplace (literalMatcher f) s r"
  unfolding stringReplace_def
  by (simp add: globalMatches_matchAt_cong [OF matchAt_literalMatcher])

lemma batchLoop_literalBatch:
  "map_sum id fst (batchLoop h env opts lines result ops) = Inr (literalBatch lines result)"
proof (induction lines arbitrary: result ops)
  case Nil
  then show ?case by simp
next
  case (Cons line lines)
  show ?case
  proof (cases "parseBatchLine line")
    case None
    then show ?thesis using Cons.IH by simp
  next
    case (Some fr)
    obtain f r where fr: "fr = (f, r)" by (cases fr)
    show ?thesis
      using Some fr Cons.IH by (simp add: RegExp_new_escaped stringReplace_literal)
  qed
qed

lemma literalBatch_example:
  "literalBatch (filter (\<lambda>line. trim line \<noteq> []) (split_nl (batchReplacements dotBatch))) (fr_text dotBatch) = ''A.ab x''"
  by code_simp

text \<open>
  C10.  In \<open>performBatchReplace\<close> of part\_001 the text that results is the same whatever
  the option record holds: two runs that differ only in the options give the same text.
  That text is the one of the literal batch: for every host, every option record, every
  text and every batch text, the function returns, and its text is the result of applying
  the rules in order, each replacing the occurrences of its find string matched literally
  and case-sensitively (the text itself when the batch text is blank).
\<close>

theorem batch_options_noninterference:
  "map_sum id fr_text (performBatchReplace h env (st\<lparr>options := o1\<rparr>))
     = map_sum id fr_text (performBatchReplace h env (st\<lparr>options := o2\<rparr>))
   \<and> map_sum id fr_text (performBatchReplace h env st) =
       Inr (if trim (batchReplacements st) = [] then fr_text st
            else literalBatch (filter (\<lambda>line. trim line \<noteq> []) (split_nl (batchReplacements st)))
                   (fr_text st))"
proof -
  let ?lines = "filter (\<lambda>line. trim line \<noteq> []) (split_nl (batchReplacements st))"
  have t: "map_sum id fr_text (performBatchReplace h env (st\<lparr>options := opts\<rparr>)) =
       Inr (if trim (batchReplacements st) = [] then fr_text st else literalBatch ?lines (fr_text st))" for opts
  proof -
    obtain r ops where b: "batchLoop h env opts ?lines (fr_text st) [] = Inr (r, ops)"
      using batchLoop_returns by blast
    from batchLoop_literalBatch [of h env opts ?lines "fr_text st" "[]"]
    have "r = literalBatch ?lines (fr_text st)" by (simp add: b)
    then show ?thesis by (simp add: performBatchReplace_def b)
  qed
  from t [of o1] t [of o2] t [of "options st"] show ?thesis by simp
qed

theorem batch_options_noninterference_witness:
  "map_sum id fr_text (performBatchReplace noHost (\<lambda>k. (k, [])) dotBatch) = Inr ''A.ab x''
   \<and> map_sum id fr_text (performBatchReplace noHost (\<lambda>k. (k, [])) (dotBatch\<lparr>options := plainOptions\<rparr>))
       = Inr ''A.ab x''"
proof -
  have t: "trim (batchReplacements dotBatch) \<noteq> []" by code_simp
  have d: "dotBatch\<lparr>options := regexOptions\<rparr> = dotBatch" by (simp add: dotBatch_def)
  note inst = batch_options_noninterference [where h = noHost and env = "\<lambda>k. (k, [])"
      and st = dotBatch and ?o1.0 = plainOptions and ?o2.0 = regexOptions]
  from inst t literalBatch_example
  have 1: "map_sum id fr_text (performBatchReplace noHost (\<lambda>k. (k, [])) dotBatch) = Inr ''A.ab x''"
    by simp
  from inst have "map_sum id fr_text (performBatchReplace noHost (\<lambda>k. (k, [])) (dotBatch\<lparr>options := plainOptions\<rparr>))
      = map_sum id fr_text (performBatchReplace noHost (\<lambda>k. (k, [])) (dotBatch\<lparr>options := regexOptions\<rparr>))"
    by simp
  with 1 d show ?thesis by simp
qed

section \<open>The operation history\<close>

lemma performReplace_history_bound:
  "length (history st) \<le> 20 \<Longrightarrow> length (history (performReplace now st)) \<le> 20"
  by (simp add: performReplace_def Let_def array_slice0_def)

lemma performReplaceT_history_bound:
  "length (t_history st) \<le> 10 \<Longrightarrow> performReplaceT now replaceAll st = Inr st' \<Longrightarrow> length (t_history st') \<le> 10"
  by (auto simp: performReplaceT_def Let_def array_slice0_def split: if_splits option.splits)

lemma performBatchReplace_history_length:
  assumes "trim (batchReplacements st) \<noteq> []"
  shows "\<exists>st'. performBatchReplace h env st = Inr st'
      \<and> length (history st') =
          (let n = length (filter (\<lambda>l. parseBatchLine l \<noteq> None)
                     (filter (\<lambda>line. trim line \<noteq> []) (split_nl (batchReplacements st))))
           in n + length (array_slice0 (history st) (20 - int n)))"
proof -
  let ?lines = "filter (\<lambda>line. trim line \<noteq> []) (split_nl (batchReplacements st))"
  obtain r ops where b: "batchLoop h env (options st) ?lines (fr_text st) [] = Inr (r, ops)"
      and l: "length ops = length (filter (\<lambda>l. parseBatchLine l \<noteq> None) ?lines)"
    using batchLoop_returns [of h env "options st" ?lines "fr_text st" "[]"] by auto
  show ?thesis
    using assms by (simp add: performBatchReplace_def b l Let_def)
qed

lemma manyRules_lines:
  "filter (\<lambda>line. trim line \<noteq> []) (split_nl manyRules) = replicate 21 ''a->b''"
  by code_simp

lemma manyRules_trim: "trim manyRules \<noteq> []"
  by code_simp

lemma parse_rule: "parseBatchLine ''a->b'' = Some (''a'', ''b'')"
  by code_simp

text \<open>
  C7.  The history can hold more than 20 entries: a batch of 21 rules applied by
  \<open>performBatchReplace\<close> of part\_001 to an empty history leaves 21 entries.  (A single
  \<open>performReplace\<close> keeps a history of at most 20 entries within 20, and the one of
  FindReplace.tsx keeps at most 10.)
\<close>

theorem batch_history_exceeds_capacity:
  "\<exists>st'. performBatchReplace noHost (\<lambda>k. (k, [])) (emptyState\<lparr>fr_text := ''a'', batchReplacements := manyRules\<rparr>) = Inr st'
     \<and> length (history st') = 21"
proof -
  let ?st = "emptyState\<lparr>fr_text := ''a'', batchReplacements := manyRules\<rparr>"
  have t: "trim (batchReplacements ?st) \<noteq> []" using manyRules_trim by simp
  have n: "length (filter (\<lambda>l. parseBatchLine l \<noteq> None)
                     (filter (\<lambda>line. trim line \<noteq> []) (split_nl (batchReplacements ?st)))) = 21"
    by (simp add: manyRules_lines parse_rule)
  have h: "history ?st = []" by (simp add: emptyState_def)
  from performBatchReplace_history_length [OF t, of noHost "\<lambda>k. (k, [])"]
  show ?thesis
    unfolding n h by (simp add: array_slice0_def)
qed

section \<open>The line range filter in FindReplace.tsx\<close>

text \<open>
  No state of FindReplace.tsx holds a line range: \<^verbatim>\<open>lineRange\<close> is \<^verbatim>\<open>null\<close> in the initial
  options and no update of the options sets it, so the filter of its scan never runs.  Were
  a range set, the filter would compare it with the 0-based index of the line, while the
  match records the 1-based line number: with the range 1 to 1 and the text of two lines x
  and x, the scan for x would keep the match on line 2 (offsets 2 to 3) only.
\<close>

lemma lineRangeT_zero_indexed:
  "map_option t_matches
     (findMatchesT noHost toLowerCase
        (emptyStateT\<lparr>t_doc := twoLines, t_findText := ''x'',
           t_options := plainOptionsT\<lparr>t_lineRange := Some (1, 1)\<rparr>\<rparr>))
     = Some [\<lparr>t_start = 2, t_end = 3, t_text = ''x'', t_line = 2, t_context = ''x''\<rparr>]"
  by code_simp

section \<open>Batch replacement is sequential\<close>

lemma stringReplace_no_match:
  "matchCountOf regex current = 0 \<Longrightarrow> stringReplace regex current r = current"
  by (simp add: matchCountOf_def stringReplace_def)

lemma forEachT_sequential:
  "forEachT h opts (filter (\<lambda>item. b_enabled item \<and> b_find item \<noteq> []) items) (current, n) =
     (case sequentialPasses (rulePassT h opts) items current of
        Inl err \<Rightarrow> Inl err
      | Inr (final, counts) \<Rightarrow> Inr (final, n + sum_list counts))"
proof (induction items arbitrary: current n)
  case Nil
  then show ?case by simp
next
  case (Cons item items)
  show ?case
  proof (cases "b_enabled item \<and> b_find item \<noteq> []")
    case False
    then show ?thesis using Cons.IH by (auto simp: rulePassT_def)
  next
    case True
    show ?thesis
    proof (cases "RegExp_new h (batchSourceT opts item) (\<not> t_caseSensitive opts)")
      case None
      with True show ?thesis by (simp add: rulePassT_def replaceAllPass_def batchStepT_def)
    next
      case (Some regex)
      show ?thesis
      proof (cases "matchCountOf regex current = 0")
        case z: True
        with True Some Cons.IH [of current n] show ?thesis
          by (simp add: rulePassT_def replaceAllPass_def batchStepT_def stringReplace_no_match
                   split: sum.splits prod.splits)
      next
        case nz: False
        with True Some Cons.IH [of "stringReplace regex current (b_replace item)" "n + matchCountOf regex current"]
        show ?thesis
          by (simp add: rulePassT_def replaceAllPass_def batchStepT_def split: sum.splits prod.splits)
      qed
    qed
  qed
qed

lemma batchLoop_sequential:
  "(case sequentialPasses (rulePass h) lines current of
      Inl err \<Rightarrow> batchLoop h env opts lines current ops = Inl err
    | Inr (final, counts) \<Rightarrow>
        (\<exists>ops'. batchLoop h env opts lines current ops = Inr (final, ops @ ops')
                \<and> map op_matchCount ops' = counts))"
proof (induction lines arbitrary: current ops)
  case Nil
  then show ?case by simp
next
  case (Cons line lines)
  show ?case
  proof (cases "parseBatchLine line")
    case None
    then show ?thesis using Cons.IH [of current ops]
      by (auto simp: rulePass_def split: sum.splits prod.splits)
  next
    case (Some fr)
    obtain f r where fr: "fr = (f, r)" by (cases fr)
    let ?p = "atomsMatcher False (map Lit f)"
    let ?op = "\<lparr>op_id = showNat (fst (env (length ops))) @ snd (env (length ops)),
                     op_find = f, op_replace = r,
                     op_timestamp = fst (env (length ops)),
                     op_matchCount = matchCountOf ?p current,
                     op_options = opts\<rparr>"
    have step: "batchLoop h env opts (line # lines) current ops
        = batchLoop h env opts lines (stringReplace ?p current r) (ops @ [?op])"
      using Some fr by (simp add: RegExp_new_escaped)
    have seq: "sequentialPasses (rulePass h) (line # lines) current =
       (case sequentialPasses (rulePass h) lines (stringReplace ?p current r) of
          Inl err \<Rightarrow> Inl err
        | Inr (final, counts) \<Rightarrow> Inr (final, matchCountOf ?p current # counts))"
      using Some fr by (simp add: rulePass_def replaceAllPass_def RegExp_new_escaped)
    show ?thesis
    proof (cases "sequentialPasses (rulePass h) lines (stringReplace ?p current r)")
      case (Inl err)
      with Cons.IH [of "stringReplace ?p current r" "ops @ [?op]"] show ?thesis
        unfolding step seq by simp
    next
      case (Inr fc)
      obtain final counts where fc: "fc = (final, counts)" by (cases fc)
      from Cons.IH [of "stringReplace ?p current r" "ops @ [?op]"] Inr fc
      obtain ops' where "batchLoop h env opts lines (stringReplace ?p current r) (ops @ [?op]) = Inr (final, (ops @ [?op]) @ ops')"
        and "map op_matchCount ops' = counts" by auto
      then have "batchLoop h env opts lines (stringReplace ?p current r) (ops @ [?op]) = Inr (final, ops @ (?op # ops'))
          \<and> map op_matchCount (?op # ops') = matchCountOf ?p current # counts" by simp
      then show ?thesis unfolding step seq using Inr fc by auto
    qed
  qed
qed

text \<open>
  C6.  Batch replacement composes sequentially.  \<open>performBatchReplace\<close> of FindReplace.tsx
  gives the text and the counts of \<open>sequentialPasses\<close> over its rule list, where a rule
  that is disabled or has an empty find field has no pass, and adds the sum of the counts to
  the reported total.  \<open>performBatchReplace\<close> of part\_001, on a batch text that is not
  blank, gives the text of \<open>sequentialPasses\<close> over the non-blank lines, where a line that
  does not parse into a find and a replacement or has an empty find has no pass, and the
  operations it records carry the counts in order.
\<close>

theorem batch_sequential:
  "performBatchReplaceT h st =
     (case sequentialPasses (rulePassT h (t_options st)) (t_batchReplacements st) (t_doc st) of
        Inl err \<Rightarrow> Inl err
      | Inr (final, counts) \<Rightarrow>
          Inr (st\<lparr>t_statistics :=
                    (t_statistics st)\<lparr>totalReplacements := totalReplacements (t_statistics st) + sum_list counts,
                                      patternsUsed := patternsUsed (t_statistics st) + 1\<rparr>,
                  t_doc := final\<rparr>))
   \<and> (trim (batchReplacements st1) \<noteq> [] \<longrightarrow>
       (case sequentialPasses (rulePass h)
               (filter (\<lambda>line. trim line \<noteq> []) (split_nl (batchReplacements st1))) (fr_text st1) of
          Inl err \<Rightarrow> performBatchReplace h env st1 = Inl err
        | Inr (final, counts) \<Rightarrow>
            (\<exists>operations. map op_matchCount operations = counts
               \<and> performBatchReplace h env st1 =
                   Inr (st1\<lparr>history := operations @ array_slice0 (history st1) (20 - int (length operations)),
                            fr_text := final, batchReplacements := []\<rparr>))))"
proof -
  have a: "performBatchReplaceT h st =
     (case sequentialPasses (rulePassT h (t_options st)) (t_batchReplacements st) (t_doc st) of
        Inl err \<Rightarrow> Inl err
      | Inr (final, counts) \<Rightarrow>
          Inr (st\<lparr>t_statistics :=
                    (t_statistics st)\<lparr>totalReplacements := totalReplacements (t_statistics st) + sum_list counts,
                                      patternsUsed := patternsUsed (t_statistics st) + 1\<rparr>,
                  t_doc := final\<rparr>))"
    by (simp add: performBatchReplaceT_def forEachT_sequential split: sum.splits prod.splits)
  let ?lines = "filter (\<lambda>line. trim line \<noteq> []) (split_nl (batchReplacements st1))"
  have b: "trim (batchReplacements st1) \<noteq> [] \<longrightarrow>
       (case sequentialPasses (rulePass h) ?lines (fr_text st1) of
          Inl err \<Rightarrow> performBatchReplace h env st1 = Inl err
        | Inr (final, counts) \<Rightarrow>
            (\<exists>operations. map op_matchCount operations = counts
               \<and> performBatchReplace h env st1 =
                   Inr (st1\<lparr>history := operations @ array_slice0 (history st1) (20 - int (length operations)),
                            fr_text := final, batchReplacements := []\<rparr>)))"
  proof
    assume t: "trim (batchReplacements st1) \<noteq> []"
    show "case sequentialPasses (rulePass h) ?lines (fr_text st1) of
          Inl err \<Rightarrow> performBatchReplace h env st1 = Inl err
        | Inr (final, counts) \<Rightarrow>
            (\<exists>operations. map op_matchCount operations = counts
               \<and> performBatchReplace h env st1 =
                   Inr (st1\<lparr>history := operations @ array_slice0 (history st1) (20 - int (length operations)),
                            fr_text := final, batchReplacements := []\<rparr>))"
    proof (cases "sequentialPasses (rulePass h) ?lines (fr_text st1)")
      case (Inl err)
      with batchLoop_sequential [where h = h and lines = ?lines and current = "fr_text st1"
             and env = env and opts = "options st1" and ops = "[]"]
      show ?thesis using t by (simp add: performBatchReplace_def)
    next
      case (Inr fc)
      obtain final counts where fc: "fc = (final, counts)" by (cases fc)
      from batchLoop_sequential [where h = h and lines = ?lines and current = "fr_text st1"
             and env = env and opts = "options st1" and ops = "[]"] Inr fc
      obtain ops' where "batchLoop h env (options st1) ?lines (fr_text st1) [] = Inr (final, ops')"
        and "map op_matchCount ops' = counts" by auto
      then show ?thesis using t Inr fc by (auto simp: performBatchReplace_def)
    qed
  qed
  from a b show ?thesis by (rule conjI)
qed


lemma demoRules_passes:
  "sequentialPasses (rulePassT noHost (plainOptionsT\<lparr>t_caseSensitive := True\<rparr>)) demoRules ''a'' = Inr (''c'', [1, 1])"
  by code_simp

lemma demoBatch_passes:
  "sequentialPasses (rulePass noHost) (filter (\<lambda>line. trim line \<noteq> []) (split_nl demoBatch)) ''a'' = Inr (''c'', [1, 1])"
  by code_simp

lemma demoBatch_trim: "trim demoBatch \<noteq> []"
  by code_simp

theorem batch_sequential_witness:
  "map_sum id (\<lambda>st. (t_doc st, totalReplacements (t_statistics st)))
     (performBatchReplaceT noHost
        (emptyStateT\<lparr>t_doc := ''a'', t_batchReplacements := demoRules,
           t_options := plainOptionsT\<lparr>t_caseSensitive := True\<rparr>\<rparr>)) = Inr (''c'', 2)
   \<and> trim demoBatch \<noteq> []
   \<and> map_sum id fr_text
       (performBatchReplace noHost (\<lambda>k. (k, []))
          (emptyState\<lparr>fr_text := ''a'', batchReplacements := demoBatch\<rparr>)) = Inr ''c''"
proof -
  let ?st = "emptyStateT\<lparr>t_doc := ''a'', t_batchReplacements := demoRules,
           t_options := plainOptionsT\<lparr>t_caseSensitive := True\<rparr>\<rparr>"
  let ?st1 = "emptyState\<lparr>fr_text := ''a'', batchReplacements := demoBatch\<rparr>"
  note t = batch_sequential [of noHost ?st ?st1 "\<lambda>k. (k, [])"]
  have a: "map_sum id (\<lambda>st. (t_doc st, totalReplacements (t_statistics st)))
     (performBatchReplaceT noHost ?st) = Inr (''c'', 2)"
    using t demoRules_passes by (simp add: emptyStateT_def)
  have "\<exists>operations. performBatchReplace noHost (\<lambda>k. (k, [])) ?st1 =
      Inr (?st1\<lparr>history := operations @ array_slice0 (history ?st1) (20 - int (length operations)),
                  fr_text := ''c'', batchReplacements := []\<rparr>)"
    using t demoBatch_passes demoBatch_trim by auto
  then have b: "map_sum id fr_text (performBatchReplace noHost (\<lambda>k. (k, [])) ?st1) = Inr ''c''"
    by auto
  from a b demoBatch_trim show ?thesis by simp
qed

section \<open>Replacement\<close>

lemma substituteMatch_span: "substituteMatch opts repl X m = applySpan X (spanOf opts repl m)"
  by (simp add: substituteMatch_def applySpan_def spanOf_def js_substring_def js_slice_def
        js_substringFrom_def)

lemma substituteMatchT_span: "substituteMatchT opts repl X m = applySpan X (spanOfT opts repl m)"
  by (simp add: substituteMatchT_def applySpan_def spanOfT_def js_slice_def js_substringFrom_def Let_def)

lemma foldl_substituteMatch:
  "foldl (substituteMatch opts repl) X ms = foldl applySpan X (map (spanOf opts repl) ms)"
  by (induction ms arbitrary: X) (simp_all add: substituteMatch_span)

lemma foldl_substituteMatchT:
  "foldl (substituteMatchT opts repl) X ms = foldl applySpan X (map (spanOfT opts repl) ms)"
  by (induction ms arbitrary: X) (simp_all add: substituteMatchT_span)

lemma insort_key_last:
  "\<forall>y \<in> set ys. f y < f x \<Longrightarrow> insort_key f x ys = ys @ [x]"
  by (induction ys) auto

lemma sort_key_descending_rev:
  fixes f :: "'a \<Rightarrow> nat"
  assumes d: "distinct (map f xs)"
  shows "sort_key (\<lambda>x. - int (f x)) xs = rev (sort_key f xs)"
proof -
  let ?g = "\<lambda>x. - int (f x)"
  from d have dx: "distinct xs" and inj: "inj_on f (set xs)"
    by (simp_all add: distinct_map)
  have injg: "inj_on ?g (set xs)"
    using inj by (auto simp: inj_on_def)
  have s1: "sorted (map ?g (sort_key ?g xs))" by (rule sorted_sort_key)
  have "sorted (map f (sort_key f xs))" by (rule sorted_sort_key)
  then have s2: "sorted (map ?g (rev (sort_key f xs)))"
    by (simp add: sorted_map sorted_wrt_rev)
  have d1: "distinct (map ?g (sort_key ?g xs))"
    using dx injg by (simp add: distinct_map)
  have d2: "distinct (map ?g (rev (sort_key f xs)))"
    using dx injg by (simp add: distinct_map)
  have "map ?g (sort_key ?g xs) = map ?g (rev (sort_key f xs))"
    using s1 d1 s2 d2 by (rule sorted_distinct_set_unique) simp
  then show ?thesis
    using injg by (intro map_inj_on [where f = ?g]) simp_all
qed

lemma ascending_of_disjoint:
  assumes "disjointSpans (map sp ms) n"
  shows "disjointAscending (map sp (sort_key (\<lambda>m. fst (sp m)) ms)) n"
proof -
  let ?f = "\<lambda>m. fst (sp m)"
  let ?S = "sort_key ?f ms"
  from assms have b: "\<forall>m \<in> set ms. fst (sp m) \<le> fst (snd (sp m)) \<and> fst (snd (sp m)) \<le> n"
    and d: "distinct (map ?f ms)"
    and p: "\<forall>a \<in> set ms. \<forall>b \<in> set ms. fst (sp a) < fst (sp b) \<longrightarrow> fst (snd (sp a)) \<le> fst (sp b)"
    by (auto simp: disjointSpans_def list_all_iff comp_def)
  have "sorted (map ?f ?S)" by (rule sorted_sort_key)
  moreover have "distinct (map ?f ?S)"
    using d by (simp add: distinct_map)
  ultimately have "sorted_wrt (<) (map ?f ?S)"
    by (simp add: strict_sorted_iff)
  then have "sorted_wrt (\<lambda>a b. ?f a < ?f b) ?S"
    by (simp add: sorted_wrt_map)
  then have "sorted_wrt (\<lambda>a b. ?f a < ?f b \<and> fst (snd (sp a)) \<le> ?f b) ?S"
    by (rule sorted_wrt_mono_rel [rotated]) (use p in auto)
  with b show ?thesis
    by (simp add: disjointAscending_def sorted_wrt_map list_all_iff)
qed

lemma sort_key_descending:
  fixes f :: "'a \<Rightarrow> nat"
  shows "sorted_wrt (\<lambda>a b. f a \<ge> f b) (sort_key (\<lambda>x. - int (f x)) xs)"
proof -
  have "sorted (map (\<lambda>x. - int (f x)) (sort_key (\<lambda>x. - int (f x)) xs))"
    by (rule sorted_sort_key)
  then show ?thesis
    by (simp add: sorted_map)
qed

lemma splice_chain:
  "disjointAscending spans (length T) \<Longrightarrow> (\<forall>sp \<in> set spans. pos \<le> fst sp) \<Longrightarrow>
     foldl applySpan T (rev spans) = take pos T @ spliceFrom T pos spans"
proof (induction spans arbitrary: pos)
  case Nil
  then show ?case by simp
next
  case (Cons sp rest)
  obtain s e r where sp: "sp = (s, e, r)" by (cases sp)
  from Cons.prems sp have se: "s \<le> e" and eT: "e \<le> length T" and ps: "pos \<le> s"
    and rest: "disjointAscending rest (length T)" and after: "\<forall>q \<in> set rest. e \<le> fst q"
    by (auto simp: disjointAscending_def)
  from Cons.IH [OF rest after]
  have "foldl applySpan T (rev rest) = take e T @ spliceFrom T e rest" .
  then have "foldl applySpan T (rev (sp # rest)) = applySpan (take e T @ spliceFrom T e rest) sp"
    by simp
  also have "\<dots> = take s T @ r @ spliceFrom T e rest"
    using se eT by (simp add: applySpan_def sp min_def)
  also have "take s T = take pos T @ js_slice T pos s"
    using ps by (simp add: js_slice_def take_add [symmetric])
  finally show ?case by (simp add: sp)
qed


lemma set_enumerate_filter:
  "set (map snd (filter Q (enumerate n xs))) \<subseteq> set xs"
  by (auto simp: in_set_enumerate_eq)

lemma distinct_enumerate_filter:
  "distinct (map f xs) \<Longrightarrow> distinct (map f (map snd (filter Q (enumerate n xs))))"
proof (induction xs arbitrary: n)
  case Nil
  then show ?case by simp
next
  case (Cons x xs)
  from Cons.prems have "f x \<notin> f ` set xs" by simp
  with set_enumerate_filter [of Q "Suc n" xs]
  have "f x \<notin> f ` set (map snd (filter Q (enumerate (Suc n) xs)))" by blast
  with Cons show ?case by auto
qed

lemma disjointSpans_matchesToReplace:
  assumes "disjointSpans (map sp (matches st)) n"
  shows "disjointSpans (map sp (matchesToReplace st)) n"
proof (cases "isInteractiveMode st")
  case False
  with assms show ?thesis by (simp add: matchesToReplace_def)
next
  case True
  let ?Q = "\<lambda>(i, m). i \<in> selectedMatches st"
  let ?sel = "map snd (filter ?Q (enumerate 0 (matches st)))"
  have sub: "set ?sel \<subseteq> set (matches st)" by (rule set_enumerate_filter)
  from assms have "distinct (map (\<lambda>m. fst (sp m)) (matches st))"
    by (simp add: disjointSpans_def comp_def)
  then have "distinct (map (\<lambda>m. fst (sp m)) ?sel)" by (rule distinct_enumerate_filter)
  then have 1: "distinct (map fst (map sp ?sel))" by (simp add: comp_def)
  from assms have b: "\<forall>m \<in> set (matches st). fst (sp m) \<le> fst (snd (sp m)) \<and> fst (snd (sp m)) \<le> n"
    and p: "\<forall>a \<in> set (matches st). \<forall>b \<in> set (matches st).
              fst (sp a) < fst (sp b) \<longrightarrow> fst (snd (sp a)) \<le> fst (sp b)"
    by (simp_all add: disjointSpans_def list_all_iff)
  from b sub have "\<forall>m \<in> set ?sel. fst (sp m) \<le> fst (snd (sp m)) \<and> fst (snd (sp m)) \<le> n"
    by blast
  then have 2: "list_all (\<lambda>sp. fst sp \<le> fst (snd sp) \<and> fst (snd sp) \<le> n) (map sp ?sel)"
    by (simp add: list_all_iff)
  from p sub have "\<forall>a \<in> set ?sel. \<forall>b \<in> set ?sel. fst (sp a) < fst (sp b) \<longrightarrow> fst (snd (sp a)) \<le> fst (sp b)"
    by blast
  then have 3: "list_all (\<lambda>a. list_all (\<lambda>b. fst a < fst b \<longrightarrow> fst (snd a) \<le> fst b) (map sp ?sel)) (map sp ?sel)"
    by (simp add: list_all_iff)
  from 1 2 3 True show ?thesis
    unfolding matchesToReplace_def disjointSpans_def by simp
qed

lemma applySpan_single: "applySpan T (s, e, r) = take s T @ r @ drop e T"
  by (simp add: applySpan_def)

lemma spliceFrom_single: "spliceFrom T 0 [(s, e, r)] = take s T @ r @ drop e T"
  by (simp add: js_slice_def)

lemma descending_splice:
  fixes sp :: "'m \<Rightarrow> span"
  assumes d: "disjointSpans (map sp ms) (length T)"
    and step: "\<And>X m. subst X m = applySpan X (sp m)"
  shows "foldl subst T (sort_key (\<lambda>m. - int (fst (sp m))) ms)
           = spliceFrom T 0 (map sp (sort_key (\<lambda>m. fst (sp m)) ms))"
proof -
  let ?asc = "sort_key (\<lambda>m. fst (sp m)) ms"
  from d have "distinct (map (\<lambda>m. fst (sp m)) ms)"
    by (simp add: disjointSpans_def comp_def)
  then have "sort_key (\<lambda>m. - int (fst (sp m))) ms = rev ?asc"
    by (rule sort_key_descending_rev)
  moreover have gen: "foldl subst X xs = foldl applySpan X (map sp xs)" for X xs
    by (induction xs arbitrary: X) (simp_all add: step)
  have "foldl subst T (rev ?asc) = foldl applySpan T (rev (map sp ?asc))"
    by (simp add: gen rev_map)
  moreover have "foldl applySpan T (rev (map sp ?asc)) = take 0 T @ spliceFrom T 0 (map sp ?asc)"
    using ascending_of_disjoint [OF d] by (intro splice_chain) simp_all
  ultimately show ?thesis by simp
qed

lemma replacedText_splice:
  assumes d: "disjointSpans (map (spanOf (options st) (replaceText st)) (matches st)) (length (fr_text st))"
    and ne: "matchesToReplace st \<noteq> []"
  shows "replacedText st =
     spliceFrom (fr_text st) 0
       (map (spanOf (options st) (replaceText st))
          (if replaceFirst (options st) then [hd (matchesToReplace st)]
           else sort_key m_index (matchesToReplace st)))"
proof (cases "replaceFirst (options st)")
  case True
  obtain s e r where sp: "spanOf (options st) (replaceText st) (hd (matchesToReplace st)) = (s, e, r)"
    by (cases "spanOf (options st) (replaceText st) (hd (matchesToReplace st))")
  from True ne show ?thesis
    by (simp add: replacedText_def substituteMatch_span sp applySpan_single js_slice_def)
next
  case False
  let ?ms = "matchesToReplace st"
  have d': "disjointSpans (map (spanOf (options st) (replaceText st)) ?ms) (length (fr_text st))"
    using d by (rule disjointSpans_matchesToReplace)
  have idx: "\<And>m. fst (spanOf (options st) (replaceText st) m) = m_index m"
    by (simp add: spanOf_def)
  from descending_splice [OF d', of "substituteMatch (options st) (replaceText st)"]
  have "foldl (substituteMatch (options st) (replaceText st)) (fr_text st) (sortedMatches ?ms)
      = spliceFrom (fr_text st) 0 (map (spanOf (options st) (replaceText st)) (sort_key m_index ?ms))"
    by (simp add: substituteMatch_span idx sortedMatches_def)
  with False show ?thesis by (simp add: replacedText_def)
qed

lemma replacedTextT_splice:
  assumes d: "disjointSpans (map (spanOfT opts repl) toMake) (length T)"
  shows "foldl (substituteMatchT opts repl) T (sortedReplacements toMake) =
     spliceFrom T 0 (map (spanOfT opts repl) (sort_key t_start toMake))"
proof -
  have idx: "\<And>m. fst (spanOfT opts repl m) = t_start m"
    by (simp add: spanOfT_def)
  from descending_splice [OF d, of "substituteMatchT opts repl"]
  show ?thesis
    by (simp add: substituteMatchT_span idx sortedReplacements_def)
qed

text \<open>
  C1.  The replace operation applies its working match set in descending order of start
  offset, so that the recorded offsets of every match index the right span when its
  substitution is made: for every text and every list of matches whose spans lie inside the
  text, start at different offsets and do not overlap, the text after \<open>performReplace\<close> is
  the text with every span of the working set replaced by its (possibly case-transformed)
  replacement.  For a single span the result is \<^verbatim>\<open>T[0:start] + R' + T[end:]\<close>.  This holds
  for the component of part\_001 (working set: the first match with \<open>replaceFirst\<close>, the
  selected matches in interactive mode, all matches otherwise) and for FindReplace.tsx
  (working set: all matches, or the current one).
\<close>

theorem performReplace_splices:
  assumes "disjointSpans (map (spanOf (options st) (replaceText st)) (matches st)) (length (fr_text st))"
    and "findText st \<noteq> []"
    and "matchesToReplace st \<noteq> []"
    and "disjointSpans (map (spanOfT (t_options stT) (t_replaceText stT)) toMake) (length (t_doc stT))"
    and "replacementsToMake replaceAll stT = Some toMake"
    and "t_matches stT \<noteq> []"
  shows "fr_text (performReplace now st) =
           spliceFrom (fr_text st) 0
             (map (spanOf (options st) (replaceText st))
                (if replaceFirst (options st) then [hd (matchesToReplace st)]
                 else sort_key m_index (matchesToReplace st)))
       \<and> (\<exists>stT'. performReplaceT now replaceAll stT = Inr stT'
             \<and> t_doc stT' = spliceFrom (t_doc stT) 0
                  (map (spanOfT (t_options stT) (t_replaceText stT)) (sort_key t_start toMake)))
       \<and> sorted_wrt (\<lambda>a b. m_index a \<ge> m_index b) (sortedMatches ms)
       \<and> sorted_wrt (\<lambda>a b. t_start a \<ge> t_start b) (sortedReplacements msT)
       \<and> spliceFrom T 0 [(s, e, r)] = take s T @ r @ drop e T"
proof -
  from assms(3) have "matches st \<noteq> []"
    by (auto simp: matchesToReplace_def split: if_splits)
  with assms(2,3) have "fr_text (performReplace now st) = replacedText st"
    by (simp add: performReplace_def Let_def)
  with replacedText_splice [OF assms(1) assms(3)]
  have a: "fr_text (performReplace now st) =
           spliceFrom (fr_text st) 0
             (map (spanOf (options st) (replaceText st))
                (if replaceFirst (options st) then [hd (matchesToReplace st)]
                 else sort_key m_index (matchesToReplace st)))"
    by simp
  have b: "\<exists>stT'. performReplaceT now replaceAll stT = Inr stT'
             \<and> t_doc stT' = spliceFrom (t_doc stT) 0
                  (map (spanOfT (t_options stT) (t_replaceText stT)) (sort_key t_start toMake))"
    using assms(5,6) replacedTextT_splice [OF assms(4)]
    by (simp add: performReplaceT_def Let_def)
  have c: "sorted_wrt (\<lambda>a b. m_index a \<ge> m_index b) (sortedMatches ms)"
    unfolding sortedMatches_def by (rule sort_key_descending)
  have d: "sorted_wrt (\<lambda>a b. t_start a \<ge> t_start b) (sortedReplacements msT)"
    unfolding sortedReplacements_def by (rule sort_key_descending)
  from a b c d show ?thesis by (simp add: js_slice_def)
qed

theorem performReplace_splices_witness:
  "fr_text (performReplace 7
      (emptyState\<lparr>fr_text := ''aXaXa'', findText := ''X'', replaceText := ''Y'', matches := demoMatches\<rparr>))
     = ''aYaYa''
   \<and> map_sum id t_doc (performReplaceT 7 True
      (emptyStateT\<lparr>t_doc := ''aXaXa'', t_findText := ''X'', t_replaceText := ''Yes'', t_matches := demoMatchesT\<rparr>))
     = Inr ''aYesaYesa''"
proof -
  let ?st = "emptyState\<lparr>fr_text := ''aXaXa'', findText := ''X'', replaceText := ''Y'', matches := demoMatches\<rparr>"
  let ?stT = "emptyStateT\<lparr>t_doc := ''aXaXa'', t_findText := ''X'', t_replaceText := ''Yes'', t_matches := demoMatchesT\<rparr>"
  have sp: "map (spanOf (options emptyState) ''Y'') demoMatches = [(1, 2, ''Y''), (3, 4, ''Y'')]"
    by (simp add: emptyState_def demoMatches_def spanOf_def replacementOf_def preserveCase_def
          plainOptions_def case_simps)
  have spT: "map (spanOfT (t_options emptyStateT) ''Yes'') demoMatchesT = [(1, 2, ''Yes''), (3, 4, ''Yes'')]"
    by (simp add: emptyStateT_def demoMatchesT_def spanOfT_def replaceWithCasePreservation_def
          plainOptionsT_def)
  have so: "sort_key m_index demoMatches = demoMatches" "sort_key t_start demoMatchesT = demoMatchesT"
    by (simp_all add: demoMatches_def demoMatchesT_def)
  have 1: "disjointSpans (map (spanOf (options ?st) (replaceText ?st)) (matches ?st)) (length (fr_text ?st))"
    by (simp add: sp disjointSpans_def)
  have 2: "findText ?st \<noteq> []" by simp
  have m: "matchesToReplace ?st = demoMatches" "\<not> replaceFirst (options emptyState)"
    by (simp_all add: matchesToReplace_def emptyState_def plainOptions_def)
  have 3: "matchesToReplace ?st \<noteq> []"
    unfolding m by (simp add: demoMatches_def)
  have 4: "disjointSpans (map (spanOfT (t_options ?stT) (t_replaceText ?stT)) demoMatchesT) (length (t_doc ?stT))"
    by (simp add: spT disjointSpans_def)
  have 5: "replacementsToMake True ?stT = Some demoMatchesT"
    by (simp add: replacementsToMake_def)
  have 6: "t_matches ?stT \<noteq> []" by (simp add: demoMatchesT_def)
  note t = performReplace_splices [OF 1 2 3 4 5 6, where now = 7 and ms = "[]" and msT = "[]"
             and T = "[]" and s = 0 and e = 0 and r = "[]"]
  from t have "fr_text (performReplace 7 ?st) = spliceFrom ''aXaXa'' 0 [(1, 2, ''Y''), (3, 4, ''Y'')]"
    by (simp add: m sp so)
  then have a: "fr_text (performReplace 7 ?st) = ''aYaYa''"
    by (simp add: js_slice_def)
  from t obtain stT' where "performReplaceT 7 True ?stT = Inr stT'"
      and "t_doc stT' = spliceFrom ''aXaXa'' 0 [(1, 2, ''Yes''), (3, 4, ''Yes'')]"
    by (auto simp: spT so)
  then have b: "map_sum id t_doc (performReplaceT 7 True ?stT) = Inr ''aYesaYesa''"
    by (simp add: js_slice_def)
  from a b show ?thesis by simp
qed

section \<open>Order and bounds of the matches\<close>

lemma scanned_mono: "scanned ne n c rs \<Longrightarrow> c \<le> c' \<Longrightarrow> scanned ne n c' rs"
  by (auto simp: scanned_def list_all_iff)

lemma scanned_snoc:
  assumes "scanned ne n c rs" and "c \<le> i" and "i \<le> e" and "e \<le> n" and "ne \<longrightarrow> i < e"
    and "i < c'" and "e \<le> c'"
  shows "scanned ne n c' (rs @ [(i, e)])"
  using assms
  by (auto simp: scanned_def ascendingStarts_def nonOverlapping_def withinText_def
        nonEmptyRanges_def sorted_wrt_append list_all_iff)

lemma regExpExec_neverEmpty:
  "neverEmpty pattern \<Longrightarrow> regExpExec pattern s li = Some (i, e, caps) \<Longrightarrow> i < e"
proof (induction pattern s li rule: regExpExec.induct)
  case (1 m s lastIndex)
  show ?case
  proof (cases "matchAt m s lastIndex")
    case None
    with "1.prems" have le: "\<not> length s < lastIndex" and "regExpExec m s (Suc lastIndex) = Some (i, e, caps)"
      by (auto simp: regExpExec.simps [of m s lastIndex] split: if_splits)
    with "1.IH" [OF le None] "1.prems"(1) show ?thesis by simp
  next
    case (Some r)
    with "1.prems" show ?thesis
      by (auto simp: regExpExec.simps [of m s lastIndex] neverEmpty_def
               split: if_splits prod.splits)
  qed
qed

lemma scanLoop_scanned:
  assumes run: "scanLoop h opts pattern s li found = Some (Inr ms)"
    and inv: "scanned (neverEmpty pattern) (length s) li (map rangeOf found)"
  shows "\<exists>c. scanned (neverEmpty pattern) (length s) c (map rangeOf ms)"
proof -
  have "\<forall>ms'. (Inr ms :: error + Match list) = Inr ms' \<longrightarrow> scanned (neverEmpty pattern) (length s) li (map rangeOf found)
          \<longrightarrow> (\<exists>c. scanned (neverEmpty pattern) (length s) c (map rangeOf ms'))"
  proof (rule scanLoop.raw_induct [where P = "\<lambda>h opts pattern s li found y.
           \<forall>ms'. y = Inr ms' \<longrightarrow> scanned (neverEmpty pattern) (length s) li (map rangeOf found)
             \<longrightarrow> (\<exists>c. scanned (neverEmpty pattern) (length s) c (map rangeOf ms'))", OF _ run])
    fix f h opts pattern s li found y
    assume IH: "\<And>h opts pattern s li found y. f h opts pattern s li found = Some y \<Longrightarrow>
           \<forall>ms'. y = Inr ms' \<longrightarrow> scanned (neverEmpty pattern) (length s) li (map rangeOf found)
             \<longrightarrow> (\<exists>c. scanned (neverEmpty pattern) (length s) c (map rangeOf ms'))"
      and body: "(case regExpExec pattern s li of
        None \<Rightarrow> Some (Inr found)
      | Some (idx, e, caps) \<Rightarrow>
          (case filterVerdict h opts (lineNumberOf s idx) (contextAround s idx (e - idx)) of
             Throw \<Rightarrow> Some (Inl SyntaxError)
           | Skip \<Rightarrow> f h opts pattern s e found
           | Keep \<Rightarrow>
               f h opts pattern s (if e - idx = 0 then e + 1 else e)
                 (found @
                   [\<lparr>m_index = idx, m_length = e - idx, m_text = js_slice s idx e,
                     m_lineNumber = lineNumberOf s idx,
                     m_context = trim (contextAround s idx (e - idx))\<rparr>]))) = Some y"
    show "\<forall>ms'. y = Inr ms' \<longrightarrow> scanned (neverEmpty pattern) (length s) li (map rangeOf found)
             \<longrightarrow> (\<exists>c. scanned (neverEmpty pattern) (length s) c (map rangeOf ms'))"
    proof (intro allI impI)
      fix ms'
      assume y: "y = Inr ms'" and inv: "scanned (neverEmpty pattern) (length s) li (map rangeOf found)"
      show "\<exists>c. scanned (neverEmpty pattern) (length s) c (map rangeOf ms')"
      proof (cases "regExpExec pattern s li")
        case None
        with body y have "ms' = found" by simp
        with inv show ?thesis by blast
      next
        case (Some r)
        obtain idx e caps where r: "r = (idx, e, caps)" by (cases r)
        from regExpExec_bounds [OF Some [unfolded r]]
        have b: "li \<le> idx" "idx \<le> e" "e \<le> length s" by simp_all
        have ne: "neverEmpty pattern \<longrightarrow> idx < e"
          using regExpExec_neverEmpty [OF _ Some [unfolded r]] by blast
        show ?thesis
        proof (cases "filterVerdict h opts (lineNumberOf s idx) (contextAround s idx (e - idx))")
          case Keep
          let ?c = "if e - idx = 0 then e + 1 else e"
          let ?m = "\<lparr>m_index = idx, m_length = e - idx, m_text = js_slice s idx e,
                     m_lineNumber = lineNumberOf s idx,
                     m_context = trim (contextAround s idx (e - idx))\<rparr>"
          from body Some r Keep have call: "f h opts pattern s ?c (found @ [?m]) = Some y" by simp
          have "scanned (neverEmpty pattern) (length s) ?c (map rangeOf found @ [(idx, e)])"
            by (rule scanned_snoc [OF inv]) (use b ne in auto)
          then have "scanned (neverEmpty pattern) (length s) ?c (map rangeOf (found @ [?m]))"
            using b by (simp add: rangeOf_def)
          with IH [OF call] y show ?thesis by blast
        next
          case Skip
          from body Some r Skip have call: "f h opts pattern s e found = Some y" by simp
          have "scanned (neverEmpty pattern) (length s) e (map rangeOf found)"
            by (rule scanned_mono [OF inv]) (use b in simp)
          with IH [OF call] y show ?thesis by blast
        next
          case Throw
          with body Some r y show ?thesis by simp
        qed
      qed
    qed
  qed
  with inv show ?thesis by blast
qed

lemma scanLoop_total:
  assumes ne: "neverEmpty pattern"
  shows "\<exists>y. scanLoop h opts pattern s li found = Some y"
proof (induction "Suc (length s) - li" arbitrary: li found rule: less_induct)
  case less
  show ?case
  proof (cases "regExpExec pattern s li")
    case None
    then show ?thesis by (subst scanLoop.simps) simp
  next
    case (Some r)
    obtain idx e caps where r: "r = (idx, e, caps)" by (cases r)
    from regExpExec_bounds [OF Some [unfolded r]]
    have b: "li \<le> idx" "idx \<le> e" "e \<le> length s" by simp_all
    have lt: "idx < e"
      using regExpExec_neverEmpty [OF ne Some [unfolded r]] .
    then have m: "Suc (length s) - e < Suc (length s) - li"
      using b by simp
    show ?thesis
    proof (cases "filterVerdict h opts (lineNumberOf s idx) (contextAround s idx (e - idx))")
      case Keep
      with less.hyps [OF m] Some r lt show ?thesis
        by (subst scanLoop.simps) simp
    next
      case Skip
      with less.hyps [OF m] Some r show ?thesis
        by (subst scanLoop.simps) simp
    next
      case Throw
      with Some r show ?thesis by (subst scanLoop.simps) simp
    qed
  qed
qed

lemma matchAtoms_width:
  "matchAtoms ic as s i = Some e \<Longrightarrow> e = i + sum_list (map atomWidth as)"
proof (induction as arbitrary: i)
  case Nil
  then show ?case by simp
next
  case (Cons a as)
  show ?case
  proof (cases a)
    case (Lit c)
    with Cons.prems have "matchAtoms ic as s (Suc i) = Some e"
      by (simp split: if_splits)
    from Cons.IH [OF this] Lit show ?thesis by simp
  next
    case WordBoundary
    with Cons.prems have "matchAtoms ic as s i = Some e"
      by (simp split: if_splits)
    from Cons.IH [OF this] WordBoundary show ?thesis by simp
  qed
qed

lemma atomsMatcher_neverEmpty:
  "0 < sum_list (map atomWidth as) \<Longrightarrow> neverEmpty (atomsMatcher ic as)"
  by (auto simp: neverEmpty_def matchAt_def atomsMatcher_def split: option.splits if_splits
           dest!: matchAtoms_width)

lemma parseAtoms_escape_append:
  "parseAtoms (escapeRegExp f @ rest) = map_option ((@) (map Lit f)) (parseAtoms rest)"
proof (induction f)
  case Nil
  then show ?case by (simp add: escapeRegExp_def option.map_ident)
next
  case (Cons c f)
  have unfold: "escapeRegExp (c # f) @ rest =
      (if c \<in> set syntaxCharacters then backslash # c # (escapeRegExp f @ rest)
       else c # (escapeRegExp f @ rest))"
    by (simp add: escapeRegExp_def)
  show ?case
  proof (cases "c \<in> set syntaxCharacters")
    case True
    then show ?thesis
      unfolding unfold
      by (simp add: parseAtoms_escaped [OF True] Cons.IH option.map_comp comp_def del: parseAtoms.simps)
  next
    case False
    then show ?thesis
      unfolding unfold
      by (simp add: parseAtoms_plain [OF False] Cons.IH option.map_comp comp_def del: parseAtoms.simps)
  qed
qed

lemma parseAtoms_wordBoundary:
  "parseAtoms (backslash # CHR ''b'' # rest) = map_option ((#) WordBoundary) (parseAtoms rest)"
  by (simp add: syntaxCharacters_def backslash_def)

lemma parseAtoms_patternSource:
  assumes "\<not> useRegex opts"
  shows "\<exists>as. parseAtoms (patternSource opts f) = Some as \<and> sum_list (map atomWidth as) = length f"
proof (cases "wholeWord opts")
  case False
  have "sum_list (map atomWidth (map Lit f)) = length f"
    by (induction f) simp_all
  with assms False show ?thesis
    by (simp add: patternSource_def parseAtoms_escapeRegExp)
next
  case True
  have w: "sum_list (map atomWidth (map Lit f)) = length f"
    by (induction f) simp_all
  have "parseAtoms ([backslash, CHR ''b''] @ escapeRegExp f @ [backslash, CHR ''b''])
      = Some (WordBoundary # map Lit f @ [WordBoundary])"
    using parseAtoms.simps(1)
    by (simp add: parseAtoms_wordBoundary parseAtoms_escape_append del: parseAtoms.simps)
  with assms True w show ?thesis
    by (simp add: patternSource_def Let_def)
qed

lemma literal_pattern:
  assumes "\<not> useRegex opts" and "f \<noteq> []"
  shows "\<exists>pattern. RegExp_new h (patternSource opts f) ic = Some pattern \<and> neverEmpty pattern"
proof -
  from parseAtoms_patternSource [OF assms(1), of f]
  obtain as where "parseAtoms (patternSource opts f) = Some as" and "sum_list (map atomWidth as) = length f"
    by blast
  with assms(2) show ?thesis
    by (simp add: RegExp_new_def atomsMatcher_neverEmpty)
qed

lemma scanned_Nil: "scanned ne n 0 (map rangeOf [])"
  by (simp add: scanned_def ascendingStarts_def nonOverlapping_def withinText_def nonEmptyRanges_def)

lemma findMatches_ranges:
  assumes "findMatches h st = Some st'"
  shows "ascendingStarts (map rangeOf (matches st'))
       \<and> nonOverlapping (map rangeOf (matches st'))
       \<and> withinText (length (fr_text st)) (map rangeOf (matches st'))
       \<and> (\<not> useRegex (options st) \<longrightarrow> nonEmptyRanges (map rangeOf (matches st')))"
proof -
  have empty: "matches st' = [] \<Longrightarrow> ?thesis"
    by (simp add: ascendingStarts_def nonOverlapping_def withinText_def nonEmptyRanges_def)
  show ?thesis
  proof (cases "findText st = []")
    case True
    with assms have "matches st' = []" by (auto simp: findMatches_def)
    then show ?thesis by (rule empty)
  next
    case False
    show ?thesis
    proof (cases "RegExp_new h (patternSource (options st) (findText st)) (\<not> caseSensitive (options st))")
      case None
      with assms False have "matches st' = []" by (auto simp: findMatches_def)
      then show ?thesis by (rule empty)
    next
      case (Some pattern)
      have ne: "\<not> useRegex (options st) \<longrightarrow> neverEmpty pattern"
        using literal_pattern [of "options st" "findText st" h "\<not> caseSensitive (options st)"] False Some
        by auto
      show ?thesis
      proof (cases "scanLoop h (options st) pattern (fr_text st) 0 []")
        case None
        with assms False Some show ?thesis by (simp add: findMatches_def)
      next
        case run: (Some y)
        show ?thesis
        proof (cases y)
          case (Inl err)
          with assms False Some run have "matches st' = []" by (auto simp: findMatches_def)
          then show ?thesis by (rule empty)
        next
          case (Inr ms)
          with assms False Some run have m: "matches st' = ms" by (auto simp: findMatches_def)
          from scanLoop_scanned [OF run [unfolded Inr] scanned_Nil]
          obtain c where "scanned (neverEmpty pattern) (length (fr_text st)) c (map rangeOf ms)" ..
          with ne m show ?thesis by (auto simp: scanned_def)
        qed
      qed
    qed
  qed
qed

lemma findMatches_literal_returns:
  assumes "\<not> useRegex (options st)"
  shows "\<exists>st'. findMatches h st = Some st'"
proof (cases "findText st = []")
  case True
  then show ?thesis by (simp add: findMatches_def)
next
  case False
  from literal_pattern [OF assms False, of h "\<not> caseSensitive (options st)"]
  obtain pattern where p: "RegExp_new h (patternSource (options st) (findText st)) (\<not> caseSensitive (options st)) = Some pattern"
    and ne: "neverEmpty pattern" by blast
  from scanLoop_total [OF ne, of h "options st" "fr_text st" 0 "[]"]
  obtain y where "scanLoop h (options st) pattern (fr_text st) 0 [] = Some y" ..
  with False p show ?thesis
    by (cases y) (simp_all add: findMatches_def)
qed

lemma before_inLine: "before no g rs \<Longrightarrow> inLine no g len 0 rs"
  by (auto simp: before_def inLine_def list_all_iff)

lemma inLine_before: "inLine no g len cur rs \<Longrightarrow> before no (g + len + 1) rs"
  by (auto simp: before_def inLine_def list_all_iff)

lemma before_mono: "before no g rs \<Longrightarrow> g \<le> g' \<Longrightarrow> before no g' rs"
  by (auto simp: before_def list_all_iff)

lemma inLine_mono: "inLine no g len cur rs \<Longrightarrow> cur \<le> cur' \<Longrightarrow> inLine no g len cur' rs"
  by (auto simp: inLine_def list_all_iff)

lemma inLine_snoc:
  assumes "inLine no g len cur rs" and "cur \<le> i" and "i < e" and "e \<le> len"
    and "i < cur'" and "no \<longrightarrow> e \<le> cur'"
  shows "inLine no g len cur' (rs @ [(g + i, g + e)])"
  using assms
  by (auto simp: inLine_def ascendingStarts_def nonOverlapping_def sorted_wrt_append list_all_iff)

lemma indexOfAux_bounds:
  "indexOfAux p xs k = Some i \<Longrightarrow> p \<noteq> [] \<Longrightarrow> k \<le> i \<and> (i - k) + length p \<le> length xs"
proof (induction xs arbitrary: k)
  case Nil
  then show ?case by simp
next
  case (Cons c cs)
  show ?case
  proof (cases "take (length p) (c # cs) = p")
    case True
    then have "length (take (length p) (c # cs)) = length p" by simp
    then have "length p \<le> length (c # cs)"
      unfolding length_take by arith
    with True Cons.prems show ?thesis by simp
  next
    case False
    with Cons.prems have "indexOfAux p cs (Suc k) = Some i" by simp
    from Cons.IH [OF this Cons.prems(2)] show ?thesis by auto
  qed
qed

lemma indexOf_bounds:
  assumes "indexOf s p from = Some i" and "p \<noteq> []"
  shows "from \<le> i \<and> i + length p \<le> length s"
proof (cases "from \<le> length s")
  case True
  with assms indexOfAux_bounds [of p "drop from s" "from" i] show ?thesis
    by (auto simp: indexOf_def min_def)
next
  case False
  with assms show ?thesis by (simp add: indexOf_def)
qed

lemma literalLoopT_inLine:
  assumes p: "p \<noteq> []" and len: "length searchText = length line"
  shows "\<exists>ms. literalLoopT opts searchText p line lineIndex g idx acc = Some ms
           \<and> (inLine False g (length line) idx (map rangeOfT acc)
                \<longrightarrow> inLine False g (length line) (Suc (length line)) (map rangeOfT ms))"
proof (induction "Suc (length searchText) - idx" arbitrary: idx acc rule: less_induct)
  case less
  show ?case
  proof (cases "indexOf searchText p idx")
    case None
    then have "literalLoopT opts searchText p line lineIndex g idx acc = Some acc"
      by (subst literalLoopT.simps) simp
    moreover have "inLine False g (length line) idx (map rangeOfT acc)
           \<longrightarrow> inLine False g (length line) (Suc (length line)) (map rangeOfT acc)"
      by (auto simp: inLine_def list_all_iff)
    ultimately show ?thesis by simp
  next
    case (Some i)
    from indexOf_bounds [OF Some p] have b: "idx \<le> i" "i + length p \<le> length line"
      using len by simp_all
    from p b have il: "i < length line" by (cases p) auto
    then have m: "Suc (length searchText) - (i + 1) < Suc (length searchText) - idx"
      using b len by simp
    show ?thesis
    proof (cases "t_wholeWord opts \<and> wordAdjacent line i (length p)")
      case True
      from less.hyps [OF m, of acc]
      obtain ms where r: "literalLoopT opts searchText p line lineIndex g (i + 1) acc = Some ms"
        and k: "inLine False g (length line) (i + 1) (map rangeOfT acc)
                \<longrightarrow> inLine False g (length line) (Suc (length line)) (map rangeOfT ms)"
        by blast
      have "literalLoopT opts searchText p line lineIndex g idx acc = Some ms"
        using Some True r by (subst literalLoopT.simps) simp
      moreover have "inLine False g (length line) idx (map rangeOfT acc)
            \<longrightarrow> inLine False g (length line) (Suc (length line)) (map rangeOfT ms)"
        using k b inLine_mono [of False g "length line" idx "map rangeOfT acc" "i + 1"] by auto
      ultimately show ?thesis by simp
    next
      case False
      let ?m = "newMatchT line lineIndex g i (length p) (js_slice line i (i + length p))"
      from less.hyps [OF m, of "acc @ [?m]"]
      obtain ms where r: "literalLoopT opts searchText p line lineIndex g (i + 1) (acc @ [?m]) = Some ms"
        and k: "inLine False g (length line) (i + 1) (map rangeOfT (acc @ [?m]))
                \<longrightarrow> inLine False g (length line) (Suc (length line)) (map rangeOfT ms)"
        by blast
      have "literalLoopT opts searchText p line lineIndex g idx acc = Some ms"
        using Some False r by (subst literalLoopT.simps) auto
      moreover have "inLine False g (length line) idx (map rangeOfT acc)
            \<longrightarrow> inLine False g (length line) (Suc (length line)) (map rangeOfT ms)"
      proof
        assume a: "inLine False g (length line) idx (map rangeOfT acc)"
        have "inLine False g (length line) (i + 1) (map rangeOfT acc @ [(g + i, g + (i + length p))])"
          by (rule inLine_snoc [OF a]) (use b p in auto)
        then have "inLine False g (length line) (i + 1) (map rangeOfT (acc @ [?m]))"
          by (simp add: rangeOfT_def newMatchT_def add.assoc)
        with k show "inLine False g (length line) (Suc (length line)) (map rangeOfT ms)" by simp
      qed
      ultimately show ?thesis by simp
    qed
  qed
qed

lemma regExpExec_at:
  "regExpExec m s li = Some (i, e, caps) \<Longrightarrow> matchAt m s i = Some (e, caps) \<and> i \<le> length s"
proof (induction m s li rule: regExpExec.induct)
  case (1 m s lastIndex)
  show ?case
  proof (cases "matchAt m s lastIndex")
    case None
    with "1.prems" have le: "\<not> length s < lastIndex" and "regExpExec m s (Suc lastIndex) = Some (i, e, caps)"
      by (auto simp: regExpExec.simps [of m s lastIndex] split: if_splits)
    with "1.IH" [OF le None] show ?thesis by simp
  next
    case (Some r)
    with "1.prems" show ?thesis
      by (auto simp: regExpExec.simps [of m s lastIndex] split: if_splits prod.splits)
  qed
qed

lemma regExpExec_again:
  assumes "regExpExec m s li = Some (i, e, caps)"
  shows "regExpExec m s i = Some (i, e, caps)"
  using regExpExec_at [OF assms] by (simp add: regExpExec.simps [of m s i])

lemma regexLoopT_empty_later:
  assumes ex: "regExpExec regex line li = Some (idx, idx, caps)"
  shows "regexLoopT opts regex line lineIndex g li acc = None"
proof -
  from regExpExec_again [OF ex]
  have "regexLoopT opts regex line lineIndex g idx acc' = None" for acc'
    by (rule regexLoopT_empty_match)
  with ex show ?thesis
    by (subst regexLoopT.simps) simp
qed

lemma regexLoopT_inLine:
  "regexLoopT opts regex line lineIndex g li acc = Some ms \<Longrightarrow>
     inLine True g (length line) li (map rangeOfT acc) \<Longrightarrow>
     inLine True g (length line) (Suc (length line)) (map rangeOfT ms)"
proof (induction "Suc (length line) - li" arbitrary: li acc rule: less_induct)
  case less
  show ?case
  proof (cases "regExpExec regex line li")
    case None
    with less.prems(1) have "ms = acc"
      by (subst (asm) regexLoopT.simps) simp
    with less.prems(2) show ?thesis
      by (auto simp: inLine_def list_all_iff)
  next
    case (Some r)
    obtain idx e caps where r: "r = (idx, e, caps)" by (cases r)
    from regExpExec_bounds [OF Some [unfolded r]]
    have b: "li \<le> idx" "idx \<le> e" "e \<le> length line" by simp_all
    have lt: "idx < e"
    proof (rule ccontr)
      assume "\<not> idx < e"
      with b have "e = idx" by simp
      with Some r have "regExpExec regex line li = Some (idx, idx, caps)" by simp
      from regexLoopT_empty_later [OF this] less.prems(1) show False by simp
    qed
    then have m: "Suc (length line) - e < Suc (length line) - li"
      using b by simp
    let ?m = "newMatchT line lineIndex g idx (e - idx) (js_slice line idx e)"
    show ?thesis
    proof (cases "t_wholeWord opts \<and> wordAdjacent line idx (e - idx)")
      case True
      with less.prems(1) Some r have call: "regexLoopT opts regex line lineIndex g e acc = Some ms"
        by (subst (asm) regexLoopT.simps) simp
      have "inLine True g (length line) e (map rangeOfT acc)"
        by (rule inLine_mono [OF less.prems(2)]) (use b in simp)
      from less.hyps [OF m call this] show ?thesis .
    next
      case False
      with less.prems(1) Some r have call: "regexLoopT opts regex line lineIndex g e (acc @ [?m]) = Some ms"
        by (subst (asm) regexLoopT.simps) auto
      have "inLine True g (length line) e (map rangeOfT acc @ [(g + idx, g + e)])"
        by (rule inLine_snoc [OF less.prems(2)]) (use b lt in auto)
      then have "inLine True g (length line) e (map rangeOfT (acc @ [?m]))"
        using b by (simp add: rangeOfT_def newMatchT_def)
      from less.hyps [OF m call this] show ?thesis .
    qed
  qed
qed

lemma length_toLowerCase: "length (toLowerCase s) = length s"
  by (simp add: toLowerCase_def)

lemma toLowerCase_Nil_iff: "toLowerCase s = [] \<longleftrightarrow> s = []"
  by (simp add: toLowerCase_def)

lemma lowerCaseFits_toLowerCase: "f \<noteq> [] \<Longrightarrow> lowerCaseFits toLowerCase opts f lines"
  by (simp add: lowerCaseFits_def toLowerCase_Nil_iff length_toLowerCase list_all_iff)

lemma lowerCaseFits_Cons:
  "lowerCaseFits lc opts f (line # lines) \<Longrightarrow>
     lowerCaseFits lc opts f [line] \<and> lowerCaseFits lc opts f lines"
  by (auto simp: lowerCaseFits_def)

lemma scanLineT_before:
  assumes run: "scanLineT h lc opts f line lineIndex g acc = Some ms"
    and f: "f \<noteq> []"
    and fits: "lowerCaseFits lc opts f [line]"
    and inv: "before (t_useRegex opts) g (map rangeOfT acc)"
  shows "before (t_useRegex opts) (g + length line + 1) (map rangeOfT ms)"
proof (cases "lineSkippedT opts lineIndex")
  case True
  with run have "ms = acc" by (simp add: scanLineT_def)
  with inv show ?thesis by (auto intro: before_mono)
next
  case False
  let ?text = "if \<not> t_caseSensitive opts then lc line else line"
  let ?p = "if \<not> t_caseSensitive opts then lc f else f"
  show ?thesis
  proof (cases "t_useRegex opts")
    case regex: True
    show ?thesis
    proof (cases "RegExp_new h ?p (\<not> t_caseSensitive opts)")
      case None
      with run False regex have "ms = acc" by (simp add: scanLineT_def Let_def)
      with inv show ?thesis by (auto intro: before_mono)
    next
      case (Some re)
      with run False regex have "regexLoopT opts re line lineIndex g 0 acc = Some ms"
        by (simp add: scanLineT_def Let_def)
      from regexLoopT_inLine [OF this] inv regex
      have "inLine True g (length line) (Suc (length line)) (map rangeOfT ms)"
        by (simp add: before_inLine)
      from inLine_before [OF this] regex show ?thesis by simp
    qed
  next
    case literal: False
    have p: "?p \<noteq> []" using f fits literal by (auto simp: lowerCaseFits_def)
    have l: "length ?text = length line" using fits literal by (auto simp: lowerCaseFits_def)
    from literalLoopT_inLine [OF p l, of opts lineIndex g 0 acc]
    obtain ms' where r: "literalLoopT opts ?text ?p line lineIndex g 0 acc = Some ms'"
      and k: "inLine False g (length line) 0 (map rangeOfT acc)
                \<longrightarrow> inLine False g (length line) (Suc (length line)) (map rangeOfT ms')"
      by blast
    from run False literal r have "ms' = ms" by (simp add: scanLineT_def Let_def)
    with k inv literal have "inLine False g (length line) (Suc (length line)) (map rangeOfT ms)"
      by (simp add: before_inLine)
    from inLine_before [OF this] literal show ?thesis by simp
  qed
qed

lemma scanLineT_literal_returns:
  assumes "\<not> t_useRegex opts" and "f \<noteq> []" and fits: "lowerCaseFits lc opts f [line]"
  shows "\<exists>ms. scanLineT h lc opts f line lineIndex g acc = Some ms"
proof -
  let ?text = "if \<not> t_caseSensitive opts then lc line else line"
  let ?p = "if \<not> t_caseSensitive opts then lc f else f"
  have p: "?p \<noteq> []" using assms by (auto simp: lowerCaseFits_def)
  have l: "length ?text = length line" using assms by (auto simp: lowerCaseFits_def)
  from literalLoopT_inLine [OF p l, of opts lineIndex g 0 acc]
  obtain ms' where "literalLoopT opts ?text ?p line lineIndex g 0 acc = Some ms'" by blast
  with assms(1) show ?thesis by (simp add: scanLineT_def Let_def)
qed

lemma linesLoopT_before:
  "linesLoopT h lc opts f lines lineIndex g acc = Some ms \<Longrightarrow> f \<noteq> [] \<Longrightarrow>
     lowerCaseFits lc opts f lines \<Longrightarrow>
     before (t_useRegex opts) g (map rangeOfT acc) \<Longrightarrow>
     before (t_useRegex opts) (g + sum_list (map (\<lambda>l. Suc (length l)) lines)) (map rangeOfT ms)"
proof (induction lines arbitrary: lineIndex g acc)
  case Nil
  then show ?case by simp
next
  case (Cons line lines)
  from Cons.prems(1) obtain acc' where s: "scanLineT h lc opts f line lineIndex g acc = Some acc'"
    and r: "linesLoopT h lc opts f lines (lineIndex + 1) (g + (length line + 1)) acc' = Some ms"
    by (auto split: option.splits)
  from lowerCaseFits_Cons [OF Cons.prems(3)]
  have f1: "lowerCaseFits lc opts f [line]" and f2: "lowerCaseFits lc opts f lines" by simp_all
  from scanLineT_before [OF s Cons.prems(2) f1 Cons.prems(4)]
  have "before (t_useRegex opts) (g + (length line + 1)) (map rangeOfT acc')" by (simp add: add.assoc)
  from Cons.IH [OF r Cons.prems(2) f2 this] show ?case by (simp add: add.assoc)
qed

lemma linesLoopT_literal_returns:
  assumes "\<not> t_useRegex opts" and "f \<noteq> []"
  shows "lowerCaseFits lc opts f lines \<Longrightarrow> \<exists>ms. linesLoopT h lc opts f lines lineIndex g acc = Some ms"
proof (induction lines arbitrary: lineIndex g acc)
  case Nil
  then show ?case by simp
next
  case (Cons line lines)
  from lowerCaseFits_Cons [OF Cons.prems]
  have f1: "lowerCaseFits lc opts f [line]" and f2: "lowerCaseFits lc opts f lines" by simp_all
  from scanLineT_literal_returns [OF assms f1, of h lineIndex g acc]
  obtain acc' where "scanLineT h lc opts f line lineIndex g acc = Some acc'" ..
  with Cons.IH [OF f2, of "lineIndex + 1" "g + (length line + 1)" acc'] show ?case by simp
qed

lemma split_on_total_length:
  "sum_list (map (\<lambda>l. Suc (length l)) (split_on d s)) = Suc (length s)"
proof (induction s)
  case Nil
  then show ?case by simp
next
  case (Cons c cs)
  obtain l ls where ht: "split_on d cs = l # ls"
    using split_on_not_Nil [of d cs] by (cases "split_on d cs") auto
  with Cons show ?case by (cases "c = d") simp_all
qed

lemma findMatchesT_ranges:
  assumes "findMatchesT h lc st = Some st'"
    and fits: "lowerCaseFits lc (t_options st) (t_findText st) (split_nl (t_doc st))"
  shows "ascendingStarts (map rangeOfT (t_matches st'))
       \<and> withinText (length (t_doc st)) (map rangeOfT (t_matches st'))
       \<and> nonEmptyRanges (map rangeOfT (t_matches st'))
       \<and> (t_useRegex (t_options st) \<longrightarrow> nonOverlapping (map rangeOfT (t_matches st')))"
proof (cases "t_findText st = []")
  case True
  with assms have "t_matches st' = []" by (auto simp: findMatchesT_def)
  then show ?thesis
    by (simp add: ascendingStarts_def nonOverlapping_def withinText_def nonEmptyRanges_def)
next
  case False
  with assms obtain ms where
    run: "linesLoopT h lc (t_options st) (t_findText st) (split_nl (t_doc st)) 0 0 [] = Some ms"
    and m: "t_matches st' = ms"
    by (auto simp: findMatchesT_def split: option.splits)
  have "before (t_useRegex (t_options st)) 0 (map rangeOfT [])"
    by (simp add: before_def ascendingStarts_def nonOverlapping_def)
  from linesLoopT_before [OF run False fits this]
  have "before (t_useRegex (t_options st)) (Suc (length (t_doc st))) (map rangeOfT ms)"
    by (simp add: split_nl_def split_on_total_length)
  with m show ?thesis
    by (auto simp: before_def withinText_def nonEmptyRanges_def list_all_iff)
qed

lemma findMatchesT_literal_returns:
  assumes "\<not> t_useRegex (t_options st)"
    and fits: "lowerCaseFits lc (t_options st) (t_findText st) (split_nl (t_doc st))"
  shows "\<exists>st'. findMatchesT h lc st = Some st'"
proof (cases "t_findText st = []")
  case True
  then show ?thesis by (simp add: findMatchesT_def)
next
  case False
  from linesLoopT_literal_returns [OF assms(1) False fits, of h 0 0 "[]"]
  obtain ms where "linesLoopT h lc (t_options st) (t_findText st) (split_nl (t_doc st)) 0 0 [] = Some ms" ..
  with False show ?thesis by (simp add: findMatchesT_def)
qed

text \<open>
  C2, as stated, fails.  With the text a and the pattern \<^verbatim>\<open>\b\<close> in regex mode the scan of
  part\_001 returns the two empty matches at offsets 0 and 1, whose start is not below
  their end: the invariant of the specification does not hold.
\<close>

theorem scan_ranges_counterexample:
  "map_option (\<lambda>st. (map rangeOf (matches st), scanInvariant 1 (map rangeOf (matches st))))
     (findMatches noHost
        (emptyState\<lparr>fr_text := ''a'', findText := [backslash, CHR ''b''],
           options := plainOptions\<lparr>useRegex := True\<rparr>\<rparr>))
     = Some ([(0, 0), (1, 1)], False)"
  by code_simp

text \<open>The literal scan of FindReplace.tsx moves on by one position after a match, so its
  matches can overlap.\<close>

lemma literal_scan_overlaps:
  "map_option (\<lambda>st. map rangeOfT (t_matches st))
     (findMatchesT noHost toLowerCase (emptyStateT\<lparr>t_doc := ''aaa'', t_findText := ''aa''\<rparr>))
     = Some [(0, 2), (1, 3)]"
  by code_simp

text \<open>The literal, case-insensitive scan of FindReplace.tsx takes its offsets from the
  lower-cased line.  Where lower-casing makes the line longer, a match can end after the
  text (the first example, a text of length 1), and the matches of one line can reach into
  the next, so that the starts are no longer strictly ascending (the second).\<close>

lemma literal_scan_lowercase_longer:
  "map_option (\<lambda>st. map rangeOfT (t_matches st))
     (findMatchesT noHost lengtheningLowerCase
        (emptyStateT\<lparr>t_doc := [CHR 0xDD], t_findText := [CHR 0xDD]\<rparr>))
     = Some [(0, 2)]
   \<and> map_option (\<lambda>st. map rangeOfT (t_matches st))
     (findMatchesT noHost lengtheningLowerCase
        (emptyStateT\<lparr>t_doc := [CHR 0xDD, CHR 0xDD, CHR 0xDD, CHR 0x0A, CHR ''i'', CHR 0xCC],
           t_findText := [CHR 0xDD]\<rparr>))
     = Some [(0, 2), (2, 4), (4, 6), (4, 6)]"
  by code_simp

text \<open>
  C2, amended.  For every text, find expression and options, when the scan returns: in
  the component of part\_001 the matches are strictly ascending by start offset and pairwise
  non-overlapping, with \<open>0 \<le> start \<le> end \<le> length\<close>, and \<open>start < end\<close> when \<open>useRegex\<close> is
  off; in FindReplace.tsx, for every lower-casing of the host that fits (\<open>useRegex\<close> or
  \<open>caseSensitive\<close> is on, or lower-casing does not empty the find text and changes the
  length of no line of the text), the matches are strictly ascending by start offset with
  \<open>0 \<le> start < end \<le> length\<close>, and pairwise non-overlapping when \<open>useRegex\<close> is on.  With
  \<open>useRegex\<close> off both scans return, in FindReplace.tsx for a lower-casing that fits.
\<close>

theorem scan_ranges:
  "(findMatches h st = Some st' \<longrightarrow>
      ascendingStarts (map rangeOf (matches st'))
      \<and> nonOverlapping (map rangeOf (matches st'))
      \<and> withinText (length (fr_text st)) (map rangeOf (matches st'))
      \<and> (\<not> useRegex (options st) \<longrightarrow> nonEmptyRanges (map rangeOf (matches st'))))
   \<and> (\<not> useRegex (options st) \<longrightarrow> (\<exists>st''. findMatches h st = Some st''))
   \<and> (findMatchesT h lc stT = Some stT'
        \<and> lowerCaseFits lc (t_options stT) (t_findText stT) (split_nl (t_doc stT)) \<longrightarrow>
      ascendingStarts (map rangeOfT (t_matches stT'))
      \<and> withinText (length (t_doc stT)) (map rangeOfT (t_matches stT'))
      \<and> nonEmptyRanges (map rangeOfT (t_matches stT'))
      \<and> (t_useRegex (t_options stT) \<longrightarrow> nonOverlapping (map rangeOfT (t_matches stT'))))
   \<and> (\<not> t_useRegex (t_options stT)
        \<and> lowerCaseFits lc (t_options stT) (t_findText stT) (split_nl (t_doc stT)) \<longrightarrow>
      (\<exists>stT''. findMatchesT h lc stT = Some stT''))"
  using findMatches_ranges [of h st st'] findMatches_literal_returns [of st h]
    findMatchesT_ranges [of h lc stT stT'] findMatchesT_literal_returns [of stT lc h]
  by blast

lemma scanState_ranges:
  "map_option (\<lambda>st. map rangeOf (matches st)) (findMatches noHost scanState) = Some [(1, 2), (3, 4)]"
  by code_simp

lemma scanStateT_ranges:
  "map_option (\<lambda>st. map rangeOfT (t_matches st)) (findMatchesT noHost toLowerCase scanStateT)
     = Some [(1, 2), (3, 4)]"
  by code_simp

theorem scan_ranges_witness:
  "map_option (\<lambda>st. map rangeOf (matches st)) (findMatches noHost scanState) = Some [(1, 2), (3, 4)]
   \<and> map_option (\<lambda>st. map rangeOfT (t_matches st)) (findMatchesT noHost toLowerCase scanStateT)
       = Some [(1, 2), (3, 4)]
   \<and> \<not> useRegex (options scanState) \<and> \<not> t_useRegex (t_options scanStateT)
   \<and> lowerCaseFits toLowerCase (t_options scanStateT) (t_findText scanStateT) (split_nl (t_doc scanStateT))
   \<and> ascendingStarts [(1, 2), (3, 4)] \<and> nonOverlapping [(1, 2), (3, 4)]
   \<and> withinText (length (fr_text scanState)) [(1, 2), (3, 4)] \<and> nonEmptyRanges [(1, 2), (3, 4)]"
proof -
  from scanState_ranges obtain st' where 1: "findMatches noHost scanState = Some st'"
    and r: "map rangeOf (matches st') = [(1, 2), (3, 4)]" by auto
  from scanStateT_ranges obtain stT' where 2: "findMatchesT noHost toLowerCase scanStateT = Some stT'"
    and rT: "map rangeOfT (t_matches stT') = [(1, 2), (3, 4)]" by auto
  have 3: "\<not> useRegex (options scanState)" "\<not> t_useRegex (t_options scanStateT)"
    by (simp_all add: scanState_def scanStateT_def emptyState_def emptyStateT_def
          plainOptions_def plainOptionsT_def)
  have 4: "lowerCaseFits toLowerCase (t_options scanStateT) (t_findText scanStateT)
             (split_nl (t_doc scanStateT))"
    by (rule lowerCaseFits_toLowerCase) (simp add: scanStateT_def)
  from scan_ranges [of noHost scanState st' toLowerCase scanStateT stT'] 1 2 3 4
  have "ascendingStarts [(1, 2), (3, 4)] \<and> nonOverlapping [(1, 2), (3, 4)]
      \<and> withinText (length (fr_text scanState)) [(1, 2), (3, 4)] \<and> nonEmptyRanges [(1, 2), (3, 4)]"
    unfolding r rT by simp
  with scanState_ranges scanStateT_ranges 3 4 show ?thesis by simp
qed

section \<open>The line range filter in part\_001\<close>















end
